theory Spec2Isabelle
  imports Main
begin

section \<open>Data model of vw/Core/ThreadPool.h\<close>

text \<open>
  A \<open>boost::shared_ptr<Task>\<close> either owns a task or is the empty pointer; the empty
  pointer is what \<open>get_next_task\<close> returns for "no task", and what the conditions
  \<open>(task = this->get_next_task())\<close> and \<open>m_task = m_queue.get_next_task()\<close> test.
  The tasks themselves are opaque (\<open>'t\<close>).

  Values of the C++ type \<open>int\<close> are integers of 32 bits in two's complement, from
  \<open>INT_MIN\<close> to \<open>INT_MAX\<close>. \<open>m_next_index++\<close> has no bound in the code: at \<open>INT_MAX\<close> it
  overflows (undefined behaviour in C++) and the compiled code wraps to \<open>INT_MIN\<close>;
  \<open>int_wrap\<close> writes that out. \<open>m_active_workers\<close> is written as it is: in every state a
  constructed queue reaches it lies between 0 and \<open>m_max_workers\<close> (\<open>slots_inv\<close> below),
  so its \<open>++\<close> and \<open>--\<close> never leave the range of \<open>int\<close>. The one conversion of an
  \<open>int\<close> to an unsigned type (the argument of \<open>resize\<close> in the constructor) is written
  out as well.
\<close>

type_synonym 't task_ptr = "'t option"

datatype error = LengthError | LogicErr

definition INT_MAX :: int where
  "INT_MAX = 2147483647"

definition INT_MIN :: int where
  "INT_MIN = - 2147483648"

definition int_wrap :: "int \<Rightarrow> int" where
  "int_wrap x = (x + 2147483648) mod 4294967296 - 2147483648"

subsection \<open>The standard containers\<close>

text \<open>
  \<open>std::map<int, V>\<close> is held as the sequence of its entries in iteration order:
  keys strictly increasing. \<open>begin()\<close> is the head, \<open>erase(begin())\<close> the tail,
  \<open>size()\<close> the length, and \<open>m[k] = v\<close> replaces the value stored under \<open>k\<close> or
  inserts a new entry at its place in the order.
\<close>

type_synonym 'v std_map = "(int \<times> 'v) list"

definition map_wf :: "'v std_map \<Rightarrow> bool" where
  "map_wf m = sorted_wrt (<) (map fst m)"

fun map_assign :: "int \<Rightarrow> 'v \<Rightarrow> 'v std_map \<Rightarrow> 'v std_map" where
  "map_assign index v [] = [(index, v)]"
| "map_assign index v (e # m) =
     (if index = fst e then (index, v) # m
      else if index < fst e then (index, v) # e # m
      else e # map_assign index v m)"

text \<open>
  \<open>std::vector<T>::resize(n)\<close> takes \<open>n\<close> as \<open>size_type\<close>, an unsigned type of
  \<open>size_bits\<close> bits: an \<open>int\<close> argument is converted modulo \<open>2 ^ size_bits\<close>. A
  request above \<open>max_size()\<close> throws \<open>std::length_error\<close> (the length check of the
  standard library before it grows a vector); otherwise the vector is cut or filled
  with value-initialised elements (here: empty shared pointers). Both \<open>size_bits\<close>
  and \<open>max_size\<close> belong to the platform and are parameters; \<open>max_size()\<close> counts
  elements that fit the address space, so it is below \<open>2 ^ (size_bits - 1)\<close>, the
  range of \<open>difference_type\<close>.
\<close>

definition size_type_of_int :: "nat \<Rightarrow> int \<Rightarrow> nat" where
  "size_type_of_int size_bits n = nat (n mod 2 ^ size_bits)"

definition vector_resize :: "nat \<Rightarrow> nat \<Rightarrow> 'a option list \<Rightarrow> error + 'a option list" where
  "vector_resize max_size n v =
     (if max_size < n then Inl LengthError
      else Inr (take n v @ replicate (n - length v) None))"

text \<open>
  \<open>v[i] = x\<close> on a vector, for an index inside it. The unchecked \<open>operator[]\<close> of the
  source is undefined outside the vector, and no statement below rests on what the
  model does there (it leaves the vector as it is): \<open>worker_thread_complete\<close> indexes
  only after its assertion has checked the range, and \<open>notify\<close> indexes with the head
  of the free list, which lies inside the table in every state that satisfies
  \<open>slots_inv\<close> (every state a constructed queue reaches); what is stated about the
  slots that \<open>notify\<close> marks assumes \<open>slots_inv\<close> and reads the table by position.
\<close>

definition vector_assign :: "'a list \<Rightarrow> int \<Rightarrow> 'a \<Rightarrow> 'a list" where
  "vector_assign v i x = (if 0 \<le> i \<and> i < int (length v) then v[nat i := x] else v)"

subsection \<open>WorkerThread and WorkQueue\<close>

text \<open>
  A \<open>WorkerThread\<close> holds its initial task and its slot (\<open>m_queue\<close> is the queue that
  owns it). \<open>m_running_threads\<close> holds, per slot, the handle of the thread running
  that worker, or the empty pointer.
\<close>

record 't WorkerThread =
  m_task :: "'t task_ptr"
  m_thread_id :: int

record 't WorkQueue =
  m_active_workers :: int
  m_max_workers :: int
  m_running_threads :: "'t WorkerThread option list"
  m_available_thread_ids :: "int list"

subsection \<open>WorkQueue: construction, worker_thread_complete, notify\<close>

text \<open>
  The constructor: \<open>m_active_workers(0), m_max_workers(num_threads)\<close>, then
  \<open>m_running_threads.resize(num_threads)\<close>, whose exception leaves the constructor,
  then the loop \<open>for (int i = 0; i < num_threads; ++i)\<close> that pushes every slot
  onto \<open>m_available_thread_ids\<close>.
\<close>

function WorkQueue_ctor_loop :: "int \<Rightarrow> int \<Rightarrow> int list \<Rightarrow> int list" where
  "WorkQueue_ctor_loop i num_threads ids =
     (if i < num_threads then WorkQueue_ctor_loop (i + 1) num_threads (ids @ [i]) else ids)"
  by pat_completeness auto
termination
  by (relation "measure (\<lambda>(i, num_threads, ids). nat (num_threads - i))") auto

declare WorkQueue_ctor_loop.simps [simp del]

definition WorkQueue_ctor :: "nat \<Rightarrow> nat \<Rightarrow> int \<Rightarrow> error + 't WorkQueue" where
  "WorkQueue_ctor size_bits max_size num_threads =
     (case vector_resize max_size (size_type_of_int size_bits num_threads) [] of
        Inl e \<Rightarrow> Inl e
      | Inr threads \<Rightarrow>
          Inr \<lparr>m_active_workers = 0, m_max_workers = num_threads,
               m_running_threads = threads,
               m_available_thread_ids = WorkQueue_ctor_loop 0 num_threads []\<rparr>)"

definition max_threads :: "'t WorkQueue \<Rightarrow> int" where
  "max_threads w = m_max_workers w"

definition active_threads :: "'t WorkQueue \<Rightarrow> int" where
  "active_threads w = m_active_workers w"

text \<open>
  Modelled from the spec: the macro \<open>VW_ASSERT(cond, exception)\<close> of
  \<open>vw/Core/Exception.h\<close>, which is not among the sources. A failed condition raises
  the exception instead of continuing (the spec: "must abort/assert rather than
  silently continue"); \<open>rest\<close> is what the code after the macro computes.
\<close>

definition VW_ASSERT :: "bool \<Rightarrow> error \<Rightarrow> 'a \<Rightarrow> error + 'a" where
  "VW_ASSERT cond excep rest = (if cond then Inr rest else Inl excep)"

text \<open>
  \<open>WorkQueue::worker_thread_complete\<close>. The counter is decremented in the object
  before the assertion is checked, so an exception leaves the object with the
  counter decremented: the result is either the exception together with the object
  as the throw leaves it, or the object after a normal return.
\<close>

definition worker_thread_complete ::
  "'t WorkQueue \<Rightarrow> int \<Rightarrow> (error \<times> 't WorkQueue) + 't WorkQueue" where
  "worker_thread_complete w worker_id =
     (let w1 = w\<lparr>m_active_workers := m_active_workers w - 1\<rparr> in
      case VW_ASSERT (worker_id \<ge> 0 \<and> worker_id < int (length (m_running_threads w1)))
             LogicErr
             (w1\<lparr>m_running_threads := vector_assign (m_running_threads w1) worker_id None,
                 m_available_thread_ids := m_available_thread_ids w1 @ [worker_id]\<rparr>)
      of Inl excep \<Rightarrow> Inl (excep, w1)
       | Inr w2 \<Rightarrow> Inr w2)"

text \<open>
  \<open>WorkQueue::notify\<close>. The pure virtual \<open>get_next_task\<close> is a parameter: it works on
  the members \<open>'q\<close> of the derived class and cannot reach the private members of
  \<open>WorkQueue\<close>. The object is the pair of both parts. \<open>&&\<close> evaluates its right side
  only when a slot is free.
\<close>

function notify_loop ::
  "('q \<Rightarrow> 't task_ptr \<times> 'q) \<Rightarrow> 't WorkQueue \<times> 'q \<Rightarrow> 't WorkQueue \<times> 'q" where
  "notify_loop get_next_task (w, q) =
     (if length (m_available_thread_ids w) \<noteq> 0 then
        (case get_next_task q of
           (None, q') \<Rightarrow> (w, q')
         | (Some t, q') \<Rightarrow>
             (let next_available_thread_id = hd (m_available_thread_ids w);
                  next_worker = \<lparr>m_task = Some t, m_thread_id = next_available_thread_id\<rparr>
              in notify_loop get_next_task
                   (w\<lparr>m_available_thread_ids := tl (m_available_thread_ids w),
                      m_running_threads :=
                        vector_assign (m_running_threads w) next_available_thread_id
                          (Some next_worker),
                      m_active_workers := m_active_workers w + 1\<rparr>, q')))
      else (w, q))"
  by pat_completeness auto
termination
  by (relation "measure (\<lambda>(get_next_task, w, q). length (m_available_thread_ids w))") auto

declare notify_loop.simps [simp del]

definition notify ::
  "('q \<Rightarrow> 't task_ptr \<times> 'q) \<Rightarrow> 't WorkQueue \<times> 'q \<Rightarrow> 't WorkQueue \<times> 'q" where
  "notify get_next_task s = notify_loop get_next_task s"

subsection \<open>FifoWorkQueue\<close>

text \<open>
  \<open>FifoWorkQueue\<close> adds the list \<open>m_queued_tasks\<close> to its base class: \<open>push_back\<close>
  appends, \<open>front\<close> and \<open>pop_front\<close> are head and tail.
\<close>

type_synonym 't FifoWorkQueue = "'t task_ptr list"

definition FifoWorkQueue_ctor ::
  "nat \<Rightarrow> nat \<Rightarrow> int \<Rightarrow> error + ('t WorkQueue \<times> 't FifoWorkQueue)" where
  "FifoWorkQueue_ctor size_bits max_size num_threads =
     (case WorkQueue_ctor size_bits max_size num_threads of
        Inl e \<Rightarrow> Inl e
      | Inr w \<Rightarrow> Inr (w, []))"

definition FifoWorkQueue_size :: "'t FifoWorkQueue \<Rightarrow> nat" where
  "FifoWorkQueue_size q = length q"

definition FifoWorkQueue_get_next_task ::
  "'t FifoWorkQueue \<Rightarrow> 't task_ptr \<times> 't FifoWorkQueue" where
  "FifoWorkQueue_get_next_task q =
     (if length q = 0 then (None, q) else (hd q, tl q))"

definition FifoWorkQueue_add_task ::
  "'t task_ptr \<Rightarrow> 't WorkQueue \<times> 't FifoWorkQueue \<Rightarrow> 't WorkQueue \<times> 't FifoWorkQueue" where
  "FifoWorkQueue_add_task task s =
     notify FifoWorkQueue_get_next_task (fst s, snd s @ [task])"

subsection \<open>OrderedWorkQueue\<close>

text \<open>The members that \<open>OrderedWorkQueue\<close> adds to its base class \<open>WorkQueue\<close>.\<close>

record 't OrderedWorkQueue =
  m_queued_tasks :: "'t task_ptr std_map"
  m_next_index :: int


text \<open>
  \<open>OrderedWorkQueue::get_next_task\<close>: the returned pointer and the queue afterwards.
  \<open>iter\<close> is \<open>m_queued_tasks.begin()\<close>, read only when the map is not empty;
  \<open>m_next_index++\<close> is the increment of a 32-bit \<open>int\<close>.
\<close>

definition OrderedWorkQueue_get_next_task ::
  "'t OrderedWorkQueue \<Rightarrow> 't task_ptr \<times> 't OrderedWorkQueue" where
  "OrderedWorkQueue_get_next_task q =
     (if length (m_queued_tasks q) = 0 then (None, q)
      else
        let iter = hd (m_queued_tasks q) in
        if fst iter \<noteq> m_next_index q then (None, q)
        else (snd iter,
              q\<lparr>m_queued_tasks := tl (m_queued_tasks q),
                m_next_index := int_wrap (m_next_index q + 1)\<rparr>))"

definition OrderedWorkQueue_ctor ::
  "nat \<Rightarrow> nat \<Rightarrow> int \<Rightarrow> error + ('t WorkQueue \<times> 't OrderedWorkQueue)" where
  "OrderedWorkQueue_ctor size_bits max_size num_threads =
     (case WorkQueue_ctor size_bits max_size num_threads of
        Inl e \<Rightarrow> Inl e
      | Inr w \<Rightarrow> Inr (w, \<lparr>m_queued_tasks = [], m_next_index = 0\<rparr>))"

definition OrderedWorkQueue_add_task ::
  "'t task_ptr \<Rightarrow> int \<Rightarrow> 't WorkQueue \<times> 't OrderedWorkQueue \<Rightarrow>
   't WorkQueue \<times> 't OrderedWorkQueue" where
  "OrderedWorkQueue_add_task task index s =
     notify OrderedWorkQueue_get_next_task
       (fst s, (snd s)\<lparr>m_queued_tasks := map_assign index task (m_queued_tasks (snd s))\<rparr>)"

subsection \<open>Descriptions used by the statements\<close>

text \<open>
  The dispatch loop in the words of the specification: the tasks that successive
  polls of \<open>get_next_task\<close> yield, at most \<open>n\<close> polls, ending with the first poll
  that reports none; and the members of the derived class after those polls.
\<close>

fun polled_tasks :: "nat \<Rightarrow> ('q \<Rightarrow> 't task_ptr \<times> 'q) \<Rightarrow> 'q \<Rightarrow> 't list \<times> 'q" where
  "polled_tasks 0 get_next_task q = ([], q)"
| "polled_tasks (Suc n) get_next_task q =
     (case get_next_task q of
        (None, q') \<Rightarrow> ([], q')
      | (Some t, q') \<Rightarrow>
          (case polled_tasks n get_next_task q' of (ts, q'') \<Rightarrow> (t # ts, q'')))"

text \<open>Starting one worker: the slot's handle refers to a worker bound to slot and task.\<close>

definition start_worker ::
  "int \<times> 't \<Rightarrow> 't WorkerThread option list \<Rightarrow> 't WorkerThread option list" where
  "start_worker st v =
     vector_assign v (fst st) (Some \<lparr>m_task = Some (snd st), m_thread_id = fst st\<rparr>)"

text \<open>One round of the loop of \<open>notify\<close>, for the task \<open>t\<close> that the poll yielded.\<close>

definition notify_body :: "'t WorkQueue \<Rightarrow> 't \<Rightarrow> 't WorkQueue" where
  "notify_body w t =
     w\<lparr>m_available_thread_ids := tl (m_available_thread_ids w),
       m_running_threads :=
         start_worker (hd (m_available_thread_ids w), t) (m_running_threads w),
       m_active_workers := m_active_workers w + 1\<rparr>"

text \<open>
  The invariant of the slot bookkeeping that the proofs carry: the free list has no
  duplicates and names only slots whose handle is empty, the worker of slot \<open>k\<close> was
  created with \<open>m_thread_id = k\<close>, \<open>m_active_workers\<close> counts the slots that hold a
  worker, and free and occupied slots add up to \<open>m_max_workers\<close>.
\<close>

definition occupied_slots :: "'t WorkQueue \<Rightarrow> nat set" where
  "occupied_slots w =
     {k. k < length (m_running_threads w) \<and> m_running_threads w ! k \<noteq> None}"

definition slots_inv :: "'t WorkQueue \<Rightarrow> bool" where
  "slots_inv w \<longleftrightarrow>
     distinct (m_available_thread_ids w) \<and>
     (\<forall>i \<in> set (m_available_thread_ids w).
        0 \<le> i \<and> i < int (length (m_running_threads w)) \<and>
        m_running_threads w ! nat i = None) \<and>
     (\<forall>k < length (m_running_threads w). \<forall>worker.
        m_running_threads w ! k = Some worker \<longrightarrow> m_thread_id worker = int k) \<and>
     m_active_workers w = int (card (occupied_slots w)) \<and>
     int (length (m_available_thread_ids w)) + m_active_workers w = m_max_workers w"

text \<open>
  The states a queue goes through. \<open>worker_thread_complete\<close> is private; its one
  call is the last statement of \<open>WorkerThread::operator()\<close>, with the \<open>m_thread_id\<close>
  of that worker, so it is the worker held in some slot that completes. \<open>notify\<close>
  and \<open>worker_thread_complete\<close> hold \<open>m_queue_mutex\<close> from start to end, so each is
  one step; \<open>add_task\<close> and the polls of the workers change only the members \<open>q\<close> of
  the derived class, which are arbitrary at every \<open>notify\<close>.
\<close>

inductive WorkQueue_reachable ::
  "nat \<Rightarrow> nat \<Rightarrow> int \<Rightarrow> ('q \<Rightarrow> 't task_ptr \<times> 'q) \<Rightarrow> 't WorkQueue \<Rightarrow> bool"
  for size_bits max_size num_threads get_next_task where
  constructed:
    "WorkQueue_ctor size_bits max_size num_threads = Inr w \<Longrightarrow>
     WorkQueue_reachable size_bits max_size num_threads get_next_task w"
| notified:
    "WorkQueue_reachable size_bits max_size num_threads get_next_task w \<Longrightarrow>
     notify get_next_task (w, q) = (w', q') \<Longrightarrow>
     WorkQueue_reachable size_bits max_size num_threads get_next_task w'"
| completed:
    "WorkQueue_reachable size_bits max_size num_threads get_next_task w \<Longrightarrow>
     k < length (m_running_threads w) \<Longrightarrow>
     m_running_threads w ! k = Some worker \<Longrightarrow>
     worker_thread_complete w (m_thread_id worker) = Inr w' \<Longrightarrow>
     WorkQueue_reachable size_bits max_size num_threads get_next_task w'"

text \<open>
  The calls a client or a worker makes on a queue object, and a sequence of them run
  from a state: \<open>add_task\<close>, and a poll of \<open>get_next_task\<close> whose result the caller keeps.
\<close>

datatype 't FifoWorkQueue_call = Fifo_add_task "'t task_ptr" | Fifo_get_next_task

fun FifoWorkQueue_step ::
  "'t WorkQueue \<times> 't FifoWorkQueue \<Rightarrow> 't FifoWorkQueue_call \<Rightarrow>
   't WorkQueue \<times> 't FifoWorkQueue" where
  "FifoWorkQueue_step s (Fifo_add_task task) = FifoWorkQueue_add_task task s"
| "FifoWorkQueue_step s Fifo_get_next_task = (fst s, snd (FifoWorkQueue_get_next_task (snd s)))"

datatype 't OrderedWorkQueue_call = Ordered_add_task "'t task_ptr" int | Ordered_get_next_task

fun OrderedWorkQueue_step ::
  "'t WorkQueue \<times> 't OrderedWorkQueue \<Rightarrow> 't OrderedWorkQueue_call \<Rightarrow>
   't WorkQueue \<times> 't OrderedWorkQueue" where
  "OrderedWorkQueue_step s (Ordered_add_task task index) = OrderedWorkQueue_add_task task index s"
| "OrderedWorkQueue_step s Ordered_get_next_task =
     (fst s, snd (OrderedWorkQueue_get_next_task (snd s)))"

text \<open>
  What happens to the pending list of a \<open>FifoWorkQueue\<close>: \<open>add_task\<close> appends a pointer,
  and \<open>notify\<close> and the workers poll \<open>get_next_task\<close>, in any interleaving.
  \<open>fifo_polls\<close> gives the results of the polls in order and the list left pending;
  \<open>fifo_pushed\<close> the pointers that arrived; \<open>tasks_of\<close> the tasks that a list of
  pointers holds, the empty pointers left out.
\<close>

datatype 't fifo_event = Push "'t task_ptr" | Poll

fun fifo_polls ::
  "'t FifoWorkQueue \<Rightarrow> 't fifo_event list \<Rightarrow> 't task_ptr list \<times> 't FifoWorkQueue" where
  "fifo_polls q [] = ([], q)"
| "fifo_polls q (Push task # es) = fifo_polls (q @ [task]) es"
| "fifo_polls q (Poll # es) =
     (case FifoWorkQueue_get_next_task q of
        (r, q') \<Rightarrow> (case fifo_polls q' es of (rs, q'') \<Rightarrow> (r # rs, q'')))"

fun fifo_pushed :: "'t fifo_event list \<Rightarrow> 't task_ptr list" where
  "fifo_pushed [] = []"
| "fifo_pushed (Push task # es) = task # fifo_pushed es"
| "fifo_pushed (Poll # es) = fifo_pushed es"

fun tasks_of :: "'t task_ptr list \<Rightarrow> 't list" where
  "tasks_of [] = []"
| "tasks_of (None # ps) = tasks_of ps"
| "tasks_of (Some t # ps) = t # tasks_of ps"

subsection \<open>Locks\<close>

text \<open>
  The two mutexes of a queue object: \<open>m_queue_mutex\<close> of \<open>WorkQueue\<close>, which guards the
  slot bookkeeping, and \<open>m_mutex\<close> of the derived class, which guards the pending
  tasks. A \<open>Mutex::Lock\<close> acquires its mutex where it is declared and releases it at
  the end of its scope, also when an exception leaves the scope. For every member
  function, the lock events of one call in the order the calling thread performs
  them; the state is the one the call starts in.
\<close>

datatype mutex = m_queue_mutex | m_mutex

datatype lock_event = Acquire mutex | Release mutex

definition FifoWorkQueue_size_locks :: "'t FifoWorkQueue \<Rightarrow> lock_event list" where
  "FifoWorkQueue_size_locks q = [Acquire m_mutex, Release m_mutex]"

definition FifoWorkQueue_get_next_task_locks :: "'t FifoWorkQueue \<Rightarrow> lock_event list" where
  "FifoWorkQueue_get_next_task_locks q = [Acquire m_mutex, Release m_mutex]"

definition OrderedWorkQueue_size_locks :: "'t OrderedWorkQueue \<Rightarrow> lock_event list" where
  "OrderedWorkQueue_size_locks q = [Acquire m_mutex, Release m_mutex]"

text \<open>\<open>OrderedWorkQueue::get_next_task\<close> tests \<open>size()\<close> before it takes the lock.\<close>

definition OrderedWorkQueue_get_next_task_locks :: "'t OrderedWorkQueue \<Rightarrow> lock_event list" where
  "OrderedWorkQueue_get_next_task_locks q =
     (if length (m_queued_tasks q) = 0 then [] else [Acquire m_mutex, Release m_mutex])"

definition max_threads_locks :: "'t WorkQueue \<Rightarrow> lock_event list" where
  "max_threads_locks w = [Acquire m_queue_mutex, Release m_queue_mutex]"

definition active_threads_locks :: "'t WorkQueue \<Rightarrow> lock_event list" where
  "active_threads_locks w = [Acquire m_queue_mutex, Release m_queue_mutex]"

definition worker_thread_complete_locks :: "'t WorkQueue \<Rightarrow> int \<Rightarrow> lock_event list" where
  "worker_thread_complete_locks w worker_id = [Acquire m_queue_mutex, Release m_queue_mutex]"

text \<open>
  \<open>notify\<close> declares its lock first, so the whole loop runs inside it; every round
  that finds a free slot calls \<open>get_next_task\<close>, whose events \<open>get_next_task_locks\<close>
  gives.
\<close>

function notify_loop_locks ::
  "('q \<Rightarrow> 't task_ptr \<times> 'q) \<Rightarrow> ('q \<Rightarrow> lock_event list) \<Rightarrow> 't WorkQueue \<times> 'q \<Rightarrow>
   lock_event list" where
  "notify_loop_locks get_next_task get_next_task_locks (w, q) =
     (if length (m_available_thread_ids w) \<noteq> 0 then
        get_next_task_locks q @
        (case get_next_task q of
           (None, q') \<Rightarrow> []
         | (Some t, q') \<Rightarrow>
             notify_loop_locks get_next_task get_next_task_locks (notify_body w t, q'))
      else [])"
  by pat_completeness auto
termination
  by (relation "measure (\<lambda>(get_next_task, get_next_task_locks, w, q).
        length (m_available_thread_ids w))") (auto simp: notify_body_def)

declare notify_loop_locks.simps [simp del]

definition notify_locks ::
  "('q \<Rightarrow> 't task_ptr \<times> 'q) \<Rightarrow> ('q \<Rightarrow> lock_event list) \<Rightarrow> 't WorkQueue \<times> 'q \<Rightarrow>
   lock_event list" where
  "notify_locks get_next_task get_next_task_locks s =
     Acquire m_queue_mutex # notify_loop_locks get_next_task get_next_task_locks s
       @ [Release m_queue_mutex]"

text \<open>\<open>add_task\<close> closes the scope of its lock before it calls \<open>notify\<close>.\<close>

definition FifoWorkQueue_add_task_locks ::
  "'t task_ptr \<Rightarrow> 't WorkQueue \<times> 't FifoWorkQueue \<Rightarrow> lock_event list" where
  "FifoWorkQueue_add_task_locks task s =
     [Acquire m_mutex, Release m_mutex] @
     notify_locks FifoWorkQueue_get_next_task FifoWorkQueue_get_next_task_locks
       (fst s, snd s @ [task])"

definition OrderedWorkQueue_add_task_locks ::
  "'t task_ptr \<Rightarrow> int \<Rightarrow> 't WorkQueue \<times> 't OrderedWorkQueue \<Rightarrow> lock_event list" where
  "OrderedWorkQueue_add_task_locks task index s =
     [Acquire m_mutex, Release m_mutex] @
     notify_locks OrderedWorkQueue_get_next_task OrderedWorkQueue_get_next_task_locks
       (fst s, (snd s)\<lparr>m_queued_tasks := map_assign index task (m_queued_tasks (snd s))\<rparr>)"

text \<open>
  \<open>WorkerThread::operator()\<close> runs its tasks with no lock of the queue held, polls
  \<open>get_next_task\<close> until it returns the empty pointer, and calls
  \<open>worker_thread_complete\<close>. \<open>polls\<close> are the pending tasks as each poll finds them
  (other threads change them in between).
\<close>

definition WorkerThread_run_locks ::
  "('q \<Rightarrow> lock_event list) \<Rightarrow> 'q list \<Rightarrow> 't WorkQueue \<Rightarrow> int \<Rightarrow> lock_event list" where
  "WorkerThread_run_locks get_next_task_locks polls w thread_id =
     concat (map get_next_task_locks polls) @ worker_thread_complete_locks w thread_id"

text \<open>
  \<open>join_all\<close> locks \<open>m_queue_mutex\<close> in every round of its loop; a round that finds
  workers active waits on the condition, which releases the mutex and takes it
  again. \<open>waits\<close> is the number of such rounds.
\<close>

definition join_all_locks :: "nat \<Rightarrow> lock_event list" where
  "join_all_locks waits =
     concat (replicate waits
       [Acquire m_queue_mutex, Release m_queue_mutex, Acquire m_queue_mutex,
        Release m_queue_mutex])
     @ [Acquire m_queue_mutex, Release m_queue_mutex]"

text \<open>
  Reading a sequence of lock events of one thread: the pairs (held, acquired) of
  every acquisition made while another mutex is held, and the mutexes held at the
  end.
\<close>

fun nested_acquires :: "mutex list \<Rightarrow> lock_event list \<Rightarrow> (mutex \<times> mutex) list" where
  "nested_acquires held [] = []"
| "nested_acquires held (Acquire l # es) =
     map (\<lambda>h. (h, l)) held @ nested_acquires (l # held) es"
| "nested_acquires held (Release l # es) = nested_acquires (remove1 l held) es"

fun held_after :: "mutex list \<Rightarrow> lock_event list \<Rightarrow> mutex list" where
  "held_after held [] = held"
| "held_after held (Acquire l # es) = held_after (l # held) es"
| "held_after held (Release l # es) = held_after (remove1 l held) es"

definition lock_order_respected :: "lock_event list \<Rightarrow> bool" where
  "lock_order_respected es \<longleftrightarrow>
     set (nested_acquires [] es) \<subseteq> {(m_queue_mutex, m_mutex)} \<and> held_after [] es = []"

section \<open>Properties\<close>

subsection \<open>The ordered map\<close>

lemma map_wf_Cons:
  "map_wf (e # m) \<longleftrightarrow> (\<forall>x \<in> set m. fst e < fst x) \<and> map_wf m"
  by (auto simp: map_wf_def)

lemma map_wf_min_key:
  assumes "map_wf m" and "m \<noteq> []"
  shows "Min (fst ` set m) = fst (hd m)"
proof -
  obtain e r where m: "m = e # r"
    using assms(2) by (cases m) auto
  have "\<forall>x \<in> set r. fst e < fst x"
    using assms(1) by (simp add: m map_wf_Cons)
  then have "Min (insert (fst e) (fst ` set r)) = fst e"
    by (intro Min_eqI) auto
  then show ?thesis by (simp add: m)
qed

lemma map_wf_lookup_hd:
  assumes "m \<noteq> []"
  shows "map_of m (fst (hd m)) = Some (snd (hd m))"
  using assms by (cases m) auto

lemma map_wf_erase_begin:
  assumes "map_wf m" and "m \<noteq> []"
  shows "tl m = filter (\<lambda>e. fst e \<noteq> fst (hd m)) m"
proof -
  obtain e r where m: "m = e # r"
    using assms(2) by (cases m) auto
  have "\<forall>x \<in> set r. fst x \<noteq> fst e"
    using assms(1) by (auto simp: m map_wf_Cons)
  then have "filter (\<lambda>x. fst x \<noteq> fst e) r = r"
    by (simp add: filter_id_conv)
  then show ?thesis by (simp add: m)
qed

lemma int_wrap_in_range:
  assumes "INT_MIN \<le> x" and "x \<le> INT_MAX"
  shows "int_wrap x = x"
  using assms by (simp add: int_wrap_def INT_MIN_def INT_MAX_def)

lemma int_wrap_increment:
  assumes "INT_MIN \<le> x" and "x < INT_MAX"
  shows "int_wrap (x + 1) = x + 1"
  using assms by (intro int_wrap_in_range) simp_all

lemma int_wrap_overflow: "int_wrap (INT_MAX + 1) = INT_MIN"
  by (simp add: int_wrap_def INT_MIN_def INT_MAX_def)

text \<open>
  C1, as the code has it. \<open>OrderedWorkQueue::get_next_task\<close> returns the empty pointer
  and leaves the queue alone when the pending map is empty, and when the least
  pending key differs from \<open>m_next_index\<close>; otherwise it returns the task stored under
  the least key, removes that entry and increments \<open>m_next_index\<close> as a 32-bit \<open>int\<close>:
  by exactly 1 below \<open>INT_MAX\<close>, and from \<open>INT_MAX\<close> to \<open>INT_MIN\<close>. (\<open>map_wf\<close> holds of
  every \<open>std::map\<close>: it is kept by the constructor, \<open>add_task\<close> and \<open>get_next_task\<close>, see
  \<open>OrderedWorkQueue_steps_map_wf\<close> below.)
\<close>

theorem OrderedWorkQueue_get_next_task_min_key:
  assumes "map_wf (m_queued_tasks q)"
  shows "OrderedWorkQueue_get_next_task q =
    (if m_queued_tasks q = [] then (None, q)
     else if Min (fst ` set (m_queued_tasks q)) \<noteq> m_next_index q then (None, q)
     else (the (map_of (m_queued_tasks q) (Min (fst ` set (m_queued_tasks q)))),
           q\<lparr>m_queued_tasks :=
                filter (\<lambda>e. fst e \<noteq> Min (fst ` set (m_queued_tasks q))) (m_queued_tasks q),
             m_next_index := int_wrap (m_next_index q + 1)\<rparr>))
    \<and> (INT_MIN \<le> m_next_index q \<and> m_next_index q < INT_MAX \<longrightarrow>
         int_wrap (m_next_index q + 1) = m_next_index q + 1)
    \<and> (m_next_index q = INT_MAX \<longrightarrow> int_wrap (m_next_index q + 1) = INT_MIN)"
proof (intro conjI)
  show "OrderedWorkQueue_get_next_task q =
    (if m_queued_tasks q = [] then (None, q)
     else if Min (fst ` set (m_queued_tasks q)) \<noteq> m_next_index q then (None, q)
     else (the (map_of (m_queued_tasks q) (Min (fst ` set (m_queued_tasks q)))),
           q\<lparr>m_queued_tasks :=
                filter (\<lambda>e. fst e \<noteq> Min (fst ` set (m_queued_tasks q))) (m_queued_tasks q),
             m_next_index := int_wrap (m_next_index q + 1)\<rparr>))"
  proof (cases "m_queued_tasks q = []")
    case True
    then show ?thesis by (simp add: OrderedWorkQueue_get_next_task_def)
  next
    case False
    note min = map_wf_min_key [OF assms False]
    show ?thesis
      using False map_wf_lookup_hd [OF False] map_wf_erase_begin [OF assms False]
      by (auto simp: OrderedWorkQueue_get_next_task_def min Let_def)
  qed
  show "INT_MIN \<le> m_next_index q \<and> m_next_index q < INT_MAX \<longrightarrow>
         int_wrap (m_next_index q + 1) = m_next_index q + 1"
    by (simp add: int_wrap_increment)
  show "m_next_index q = INT_MAX \<longrightarrow> int_wrap (m_next_index q + 1) = INT_MIN"
    by (simp add: int_wrap_overflow)
qed

theorem OrderedWorkQueue_get_next_task_min_key_witness:
  "map_wf [(0, Some (7::nat)), (2, Some 9)] \<and>
   OrderedWorkQueue_get_next_task
     \<lparr>m_queued_tasks = [(0, Some (7::nat)), (2, Some 9)], m_next_index = 0\<rparr>
   = (Some 7, \<lparr>m_queued_tasks = [(2, Some 9)], m_next_index = 1\<rparr>)"
proof -
  have wf: "map_wf (m_queued_tasks
      \<lparr>m_queued_tasks = [(0, Some (7::nat)), (2, Some 9)], m_next_index = 0\<rparr>)"
    by (simp add: map_wf_def)
  show ?thesis
    using wf OrderedWorkQueue_get_next_task_min_key [OF wf]
    by (simp add: int_wrap_def)
qed

text \<open>
  C1 fails as stated where \<open>m_next_index\<close> is \<open>INT_MAX\<close>: with index 2147483647 pending
  and next, the release leaves \<open>m_next_index = -2147483648\<close>, not 2147483648. The state
  is reached through \<open>add_task\<close> and \<open>get_next_task\<close> alone
  (\<open>OrderedWorkQueue_reaches_INT_MAX\<close> below).
\<close>

theorem OrderedWorkQueue_get_next_task_overflow_counterexample:
  "map_wf [(2147483647, Some (7::nat))] \<and>
   OrderedWorkQueue_get_next_task
     \<lparr>m_queued_tasks = [(2147483647, Some (7::nat))], m_next_index = 2147483647\<rparr>
   = (Some 7, \<lparr>m_queued_tasks = [], m_next_index = - 2147483648\<rparr>) \<and>
   (- 2147483648 :: int) \<noteq> 2147483647 + 1"
  by (simp add: map_wf_def OrderedWorkQueue_get_next_task_def int_wrap_def)

subsection \<open>The dispatch loop and the slot bookkeeping\<close>

lemma notify_loop_closed:
  "notify_loop gnt (w, q) =
     (case polled_tasks (length (m_available_thread_ids w)) gnt q of
        (tasks, q') \<Rightarrow>
          (w\<lparr>m_available_thread_ids := drop (length tasks) (m_available_thread_ids w),
             m_running_threads :=
               fold start_worker (zip (m_available_thread_ids w) tasks) (m_running_threads w),
             m_active_workers := m_active_workers w + int (length tasks)\<rparr>, q'))"
proof (induction "m_available_thread_ids w" arbitrary: w q)
  case Nil
  then show ?case by (subst notify_loop.simps) (simp flip: Nil)
next
  case (Cons i ids)
  note avail = Cons.hyps(2) [symmetric]
  show ?case
  proof (cases "gnt q")
    case (Pair r q')
    show ?thesis
    proof (cases r)
      case None
      then show ?thesis using Pair avail by (subst notify_loop.simps) simp
    next
      case (Some t)
      let ?w = "w\<lparr>m_available_thread_ids := ids,
                   m_running_threads := start_worker (i, t) (m_running_threads w),
                   m_active_workers := m_active_workers w + 1\<rparr>"
      have ih: "notify_loop gnt (?w, q') = 
         (case polled_tasks (length (m_available_thread_ids ?w)) gnt q' of
        (tasks, q'') \<Rightarrow>
          (?w\<lparr>m_available_thread_ids := drop (length tasks) (m_available_thread_ids ?w),
             m_running_threads :=
               fold start_worker (zip (m_available_thread_ids ?w) tasks) (m_running_threads ?w),
             m_active_workers := m_active_workers ?w + int (length tasks)\<rparr>, q''))"
        by (rule Cons.hyps(1)) simp
      have step: "notify_loop gnt (w, q) = notify_loop gnt (?w, q')"
        using Pair Some avail by (subst notify_loop.simps) (simp add: start_worker_def)
      show ?thesis
        unfolding step ih using Pair Some avail
        by (simp split: prod.splits)
    qed
  qed
qed

lemma WorkQueue_ctor_loop_upto:
  "WorkQueue_ctor_loop i n ids = ids @ [i..n - 1]"
proof (induction i n ids rule: WorkQueue_ctor_loop.induct)
  case (1 i n ids)
  show ?case
  proof (cases "i < n")
    case True
    have "[i..n - 1] = i # [i + 1..n - 1]"
      using True by (simp add: upto_rec1)
    with True "1" show ?thesis
      by (subst WorkQueue_ctor_loop.simps) simp
  next
    case False
    then show ?thesis
      by (subst WorkQueue_ctor_loop.simps) simp
  qed
qed

lemma WorkQueue_ctor_Inr:
  assumes "WorkQueue_ctor sb ms n = Inr w"
  shows "w = \<lparr>m_active_workers = 0, m_max_workers = n,
              m_running_threads = replicate (size_type_of_int sb n) None,
              m_available_thread_ids = [0..n - 1]\<rparr>"
  using assms
  by (auto simp: WorkQueue_ctor_def vector_resize_def WorkQueue_ctor_loop_upto
      split: if_splits)

lemma slots_inv_ctor:
  assumes "0 \<le> n" and "n < 2 ^ sb" and "WorkQueue_ctor sb ms n = Inr w"
  shows "slots_inv w"
proof -
  have sz: "size_type_of_int sb n = nat n"
    using assms(1,2) by (simp add: size_type_of_int_def)
  show ?thesis
    unfolding WorkQueue_ctor_Inr [OF assms(3)] sz
    using assms(1) by (auto simp: slots_inv_def occupied_slots_def)
qed

lemma occupied_slots_finite: "finite (occupied_slots w)"
  by (simp add: occupied_slots_def)

lemma slots_inv_bounds:
  assumes "slots_inv w"
  shows "0 \<le> m_active_workers w \<and> m_active_workers w \<le> m_max_workers w \<and>
    int (length (m_available_thread_ids w)) + m_active_workers w = m_max_workers w"
  using assms by (auto simp: slots_inv_def)

lemma slots_inv_notify_body:
  assumes "slots_inv w" and "m_available_thread_ids w \<noteq> []"
  shows "slots_inv (notify_body w t)"
proof -
  obtain i ids where av: "m_available_thread_ids w = i # ids"
    using assms(2) by (cases "m_available_thread_ids w") auto
  let ?v = "m_running_threads w"
  let ?x = "Some \<lparr>m_task = Some t, m_thread_id = i\<rparr>"
  have i: "0 \<le> i" "i < int (length ?v)" "?v ! nat i = None" "i \<notin> set ids" "distinct ids"
    using assms(1) by (auto simp: slots_inv_def av)
  have ni: "nat i < length ?v"
    using i(1,2) by simp
  have va: "vector_assign ?v i ?x = ?v[nat i := ?x]"
    using i by (simp add: vector_assign_def)
  have occ: "occupied_slots (notify_body w t) = insert (nat i) (occupied_slots w)"
    using i ni by (auto simp: occupied_slots_def notify_body_def start_worker_def av va nth_list_update)
  have notin: "nat i \<notin> occupied_slots w"
    using i by (simp add: occupied_slots_def)
  have card: "card (occupied_slots (notify_body w t)) = Suc (card (occupied_slots w))"
    unfolding occ using notin by (simp add: occupied_slots_finite)
  have free: "\<forall>j \<in> set ids. 0 \<le> j \<and> j < int (length ?v) \<and> ?v[nat i := ?x] ! nat j = None"
  proof
    fix j assume j: "j \<in> set ids"
    then have "0 \<le> j" "j < int (length ?v)" "?v ! nat j = None"
      using assms(1) by (auto simp: slots_inv_def av)
    moreover have "nat j \<noteq> nat i"
      using j i(1,4) \<open>0 \<le> j\<close> by (auto simp: eq_nat_nat_iff)
    ultimately show "0 \<le> j \<and> j < int (length ?v) \<and> ?v[nat i := ?x] ! nat j = None"
      by simp
  qed
  have ids: "\<forall>k < length ?v. \<forall>worker. ?v[nat i := ?x] ! k = Some worker \<longrightarrow> m_thread_id worker = int k"
    using assms(1) i by (auto simp: slots_inv_def nth_list_update split: if_splits)
  have sum: "int (length ids) + (m_active_workers w + 1) = m_max_workers w"
    using assms(1) by (simp add: slots_inv_def av)
  have act: "m_active_workers w = int (card (occupied_slots w))"
    using assms(1) by (simp add: slots_inv_def)
  show ?thesis
    unfolding slots_inv_def
    using i(5) free ids sum card act
    by (simp add: notify_body_def start_worker_def av va)
qed

lemma notify_loop_unfold:
  "notify_loop gnt (w, q) =
     (if m_available_thread_ids w = [] then (w, q)
      else case gnt q of
             (None, q') \<Rightarrow> (w, q')
           | (Some t, q') \<Rightarrow> notify_loop gnt (notify_body w t, q'))"
  by (subst notify_loop.simps)
    (simp add: notify_body_def start_worker_def Let_def split: prod.splits option.splits)

lemma slots_inv_notify_loop:
  assumes "slots_inv w"
  shows "slots_inv (fst (notify_loop gnt (w, q)))"
  using assms
proof (induction "length (m_available_thread_ids w)" arbitrary: w q)
  case 0
  then show ?case by (simp add: notify_loop_unfold)
next
  case (Suc n)
  then have ne: "m_available_thread_ids w \<noteq> []" by auto
  show ?case
  proof (cases "gnt q")
    case (Pair r q')
    show ?thesis
    proof (cases r)
      case None
      then show ?thesis using Pair Suc.prems ne by (simp add: notify_loop_unfold)
    next
      case (Some t)
      have "n = length (m_available_thread_ids (notify_body w t))"
        using Suc.hyps(2) by (simp add: notify_body_def start_worker_def)
      then have "slots_inv (fst (notify_loop gnt (notify_body w t, q')))"
        using slots_inv_notify_body [OF Suc.prems ne] by (rule Suc.hyps(1))
      then show ?thesis using Pair Some ne by (simp add: notify_loop_unfold)
    qed
  qed
qed

lemma slots_inv_complete:
  assumes "slots_inv w" and "k < length (m_running_threads w)"
    and "m_running_threads w ! k = Some worker"
    and "worker_thread_complete w (m_thread_id worker) = Inr w'"
  shows "slots_inv w'"
proof -
  let ?v = "m_running_threads w"
  have id: "m_thread_id worker = int k"
    using assms(1-3) by (simp add: slots_inv_def)
  have w': "w' = w\<lparr>m_active_workers := m_active_workers w - 1,
                    m_running_threads := ?v[k := None],
                    m_available_thread_ids := m_available_thread_ids w @ [int k]\<rparr>"
    using assms(2,4) by (simp add: worker_thread_complete_def VW_ASSERT_def id vector_assign_def Let_def)
  have notfree: "int k \<notin> set (m_available_thread_ids w)"
    using assms(1,3) by (auto simp: slots_inv_def)
  have occ: "occupied_slots w' = occupied_slots w - {k}"
    using assms(2) by (auto simp: occupied_slots_def w' nth_list_update)
  have kin: "k \<in> occupied_slots w"
    using assms(2,3) by (simp add: occupied_slots_def)
  then have pos: "0 < card (occupied_slots w)"
    using occupied_slots_finite card_gt_0_iff by blast
  have card: "int (card (occupied_slots w')) = int (card (occupied_slots w)) - 1"
    unfolding occ using kin pos by (simp add: occupied_slots_finite)
  have free: "\<forall>j \<in> set (m_available_thread_ids w @ [int k]).
        0 \<le> j \<and> j < int (length ?v) \<and> ?v[k := None] ! nat j = None"
    using assms(1,2) by (auto simp: slots_inv_def nth_list_update)
  have ids: "\<forall>j < length ?v. \<forall>wk. ?v[k := None] ! j = Some wk \<longrightarrow> m_thread_id wk = int j"
    using assms(1,2) by (auto simp: slots_inv_def nth_list_update split: if_splits)
  have rest: "distinct (m_available_thread_ids w)"
     "m_active_workers w = int (card (occupied_slots w))"
     "int (length (m_available_thread_ids w)) + m_active_workers w = m_max_workers w"
    using assms(1) by (auto simp: slots_inv_def)
  show ?thesis
    unfolding slots_inv_def
    using rest notfree free ids card
    by (simp add: w')
qed

lemma reachable_slots_inv:
  assumes "0 \<le> n" and "n < 2 ^ sb" and "WorkQueue_reachable sb ms n gnt w"
  shows "slots_inv w \<and> m_max_workers w = n"
  using assms(3)
proof (induction rule: WorkQueue_reachable.induct)
  case (constructed w)
  then show ?case
    using slots_inv_ctor [OF assms(1,2)] WorkQueue_ctor_Inr by fastforce
next
  case (notified w q w' q')
  have "w' = fst (notify_loop gnt (w, q))"
    using notified.hyps(2) by (simp add: notify_def)
  moreover have "m_max_workers (fst (notify_loop gnt (w, q))) = m_max_workers w"
    by (simp add: notify_loop_closed split: prod.splits)
  ultimately show ?case
    using notified.IH slots_inv_notify_loop by auto
next
  case (completed w k worker w')
  have "m_max_workers w' = m_max_workers w"
    using completed.hyps(4)
    by (auto simp: worker_thread_complete_def VW_ASSERT_def Let_def split: if_splits)
  then show ?case
    using completed.IH slots_inv_complete [OF _ completed.hyps(2,3,4)] by simp
qed


lemma FifoWorkQueue_get_next_task_simps:
  "FifoWorkQueue_get_next_task [] = (None, [])"
  "FifoWorkQueue_get_next_task (t # ts) = (t, ts)"
  by (simp_all add: FifoWorkQueue_get_next_task_def)

lemma polled_tasks_length: "length (fst (polled_tasks n gnt q)) \<le> n"
proof (induction n arbitrary: q)
  case 0
  show ?case by simp
next
  case (Suc n)
  obtain r q' where g: "gnt q = (r, q')"
    by (cases "gnt q")
  show ?case
    using Suc [of q'] by (cases r) (auto simp: g split: prod.splits)
qed

lemma WorkQueue_ctor_length_error:
  assumes "max_size < size_type_of_int size_bits num_threads"
  shows "WorkQueue_ctor size_bits max_size num_threads = Inl LengthError"
  using assms by (simp add: WorkQueue_ctor_def vector_resize_def)

lemma start_workers_slots:
  assumes "distinct (map fst its)"
    and "\<forall>p \<in> set its. 0 \<le> fst p \<and> fst p < int (length v)"
  shows "length (fold start_worker its v) = length v
    \<and> (\<forall>p \<in> set its. fold start_worker its v ! nat (fst p)
          = Some \<lparr>m_task = Some (snd p), m_thread_id = fst p\<rparr>)
    \<and> (\<forall>k < length v. int k \<notin> fst ` set its \<longrightarrow> fold start_worker its v ! k = v ! k)"
  using assms
proof (induction its arbitrary: v)
  case Nil
  show ?case by simp
next
  case (Cons p its)
  let ?v = "start_worker p v"
  have p: "0 \<le> fst p" "nat (fst p) < length v" "fst p \<notin> fst ` set its"
    using Cons.prems by auto
  have v1: "?v = v[nat (fst p) := Some \<lparr>m_task = Some (snd p), m_thread_id = fst p\<rparr>]"
    using Cons.prems(2) by (simp add: start_worker_def vector_assign_def)
  have len: "length ?v = length v"
    by (simp add: v1)
  have ih: "length (fold start_worker its ?v) = length ?v
    \<and> (\<forall>p \<in> set its. fold start_worker its ?v ! nat (fst p)
          = Some \<lparr>m_task = Some (snd p), m_thread_id = fst p\<rparr>)
    \<and> (\<forall>k < length ?v. int k \<notin> fst ` set its \<longrightarrow> fold start_worker its ?v ! k = ?v ! k)"
    using Cons.prems by (intro Cons.IH) (simp_all add: len)
  have here: "fold start_worker its ?v ! nat (fst p)
      = Some \<lparr>m_task = Some (snd p), m_thread_id = fst p\<rparr>"
    using ih p by (simp add: len v1)
  have other: "fold start_worker its ?v ! k = v ! k"
    if "k < length v" "int k \<notin> fst ` set (p # its)" for k
  proof -
    have "k \<noteq> nat (fst p)"
      using that(2) p(1) by auto
    then show ?thesis
      using ih that by (simp add: len v1)
  qed
  show ?case
    using ih here other by (simp add: len)
qed

text \<open>
  C2. In every state in which the slot bookkeeping is sound (\<open>slots_inv\<close>: every state
  a constructed queue reaches, by \<open>reachable_slots_inv\<close>), \<open>WorkQueue::notify\<close> polls
  \<open>get_next_task\<close> once per free slot and stops at the first poll that reports none.
  With \<open>tasks\<close> the tasks polled: never more tasks than free slots; as many slot ids
  leave the front of the free list; \<open>m_active_workers\<close> grows by their number;
  the slot of the \<open>j\<close>-th free id holds a worker with the \<open>j\<close>-th task and that id, and
  every other slot is as it was. One round at a time: with no free slot nothing is
  polled and nothing changes; a poll that reports none ends the loop with the other
  free slots left free; a polled task takes the front slot, whose entry of the table
  becomes the new worker, and the loop goes on. The bookkeeping is sound afterwards.
\<close>

theorem notify_dispatches_polled_tasks:
  assumes "slots_inv w"
  shows "(case (polled_tasks (length (m_available_thread_ids w)) get_next_task q,
               notify get_next_task (w, q)) of
      ((tasks, q'), (w', q'')) \<Rightarrow>
        q'' = q' \<and>
        length tasks \<le> length (m_available_thread_ids w) \<and>
        m_available_thread_ids w' = drop (length tasks) (m_available_thread_ids w) \<and>
        m_active_workers w' = m_active_workers w + int (length tasks) \<and>
        m_max_workers w' = m_max_workers w \<and>
        length (m_running_threads w') = length (m_running_threads w) \<and>
        (\<forall>p \<in> set (zip (m_available_thread_ids w) tasks).
           m_running_threads w' ! nat (fst p)
             = Some \<lparr>m_task = Some (snd p), m_thread_id = fst p\<rparr>) \<and>
        (\<forall>k < length (m_running_threads w).
           int k \<notin> set (take (length tasks) (m_available_thread_ids w)) \<longrightarrow>
           m_running_threads w' ! k = m_running_threads w ! k))
    \<and> notify get_next_task (w, q) =
        (if m_available_thread_ids w = [] then (w, q)
         else case get_next_task q of
                (None, q') \<Rightarrow> (w, q')
              | (Some t, q') \<Rightarrow>
                  notify get_next_task
                    (w\<lparr>m_available_thread_ids := tl (m_available_thread_ids w),
                       m_running_threads :=
                         (m_running_threads w)
                           [nat (hd (m_available_thread_ids w)) :=
                              Some \<lparr>m_task = Some t,
                                    m_thread_id = hd (m_available_thread_ids w)\<rparr>],
                       m_active_workers := m_active_workers w + 1\<rparr>, q'))
    \<and> slots_inv (fst (notify get_next_task (w, q)))"
proof (intro conjI)
  let ?ids = "m_available_thread_ids w"
  let ?v = "m_running_threads w"
  obtain tasks q' where pt: "polled_tasks (length ?ids) get_next_task q = (tasks, q')"
    by (cases "polled_tasks (length ?ids) get_next_task q")
  let ?its = "zip ?ids tasks"
  let ?w' = "w\<lparr>m_available_thread_ids := drop (length tasks) ?ids,
               m_running_threads := fold start_worker ?its ?v,
               m_active_workers := m_active_workers w + int (length tasks)\<rparr>"
  have nt: "notify get_next_task (w, q) = (?w', q')"
    by (simp add: notify_def notify_loop_closed pt)
  have len: "length tasks \<le> length ?ids"
    using polled_tasks_length [of "length ?ids" get_next_task q] by (simp add: pt)
  have keys: "map fst ?its = take (length tasks) ?ids"
    using len by (simp add: map_fst_zip_take min_def)
  have d: "distinct (map fst ?its)"
    using assms by (simp add: keys slots_inv_def)
  have r: "\<forall>p \<in> set ?its. 0 \<le> fst p \<and> fst p < int (length ?v)"
    using assms by (auto simp: slots_inv_def dest: set_zip_leftD)
  have img: "fst ` set ?its = set (take (length tasks) ?ids)"
    using keys by (metis set_map)
  note slots = start_workers_slots [OF d r]
  show "case (polled_tasks (length ?ids) get_next_task q, notify get_next_task (w, q)) of
      ((tasks, q'), (w', q'')) \<Rightarrow>
        q'' = q' \<and>
        length tasks \<le> length ?ids \<and>
        m_available_thread_ids w' = drop (length tasks) ?ids \<and>
        m_active_workers w' = m_active_workers w + int (length tasks) \<and>
        m_max_workers w' = m_max_workers w \<and>
        length (m_running_threads w') = length ?v \<and>
        (\<forall>p \<in> set (zip ?ids tasks).
           m_running_threads w' ! nat (fst p)
             = Some \<lparr>m_task = Some (snd p), m_thread_id = fst p\<rparr>) \<and>
        (\<forall>k < length ?v.
           int k \<notin> set (take (length tasks) ?ids) \<longrightarrow>
           m_running_threads w' ! k = ?v ! k)"
    using len slots by (simp add: pt nt img)
  show "notify get_next_task (w, q) =
        (if ?ids = [] then (w, q)
         else case get_next_task q of
                (None, q') \<Rightarrow> (w, q')
              | (Some t, q') \<Rightarrow>
                  notify get_next_task
                    (w\<lparr>m_available_thread_ids := tl ?ids,
                       m_running_threads :=
                         ?v[nat (hd ?ids) := Some \<lparr>m_task = Some t, m_thread_id = hd ?ids\<rparr>],
                       m_active_workers := m_active_workers w + 1\<rparr>, q'))"
  proof (cases "?ids = []")
    case True
    then show ?thesis by (simp add: notify_def notify_loop_unfold)
  next
    case False
    then have "hd ?ids \<in> set ?ids" by simp
    then have "0 \<le> hd ?ids \<and> hd ?ids < int (length ?v)"
      using assms by (simp add: slots_inv_def)
    then have "notify_body w t =
        w\<lparr>m_available_thread_ids := tl ?ids,
          m_running_threads :=
            ?v[nat (hd ?ids) := Some \<lparr>m_task = Some t, m_thread_id = hd ?ids\<rparr>],
          m_active_workers := m_active_workers w + 1\<rparr>" for t
      by (simp add: notify_body_def start_worker_def vector_assign_def)
    then show ?thesis
      unfolding notify_def using False
      by (subst notify_loop_unfold) (simp split: prod.splits option.splits)
  qed
  show "slots_inv (fst (notify get_next_task (w, q)))"
    unfolding notify_def using assms by (rule slots_inv_notify_loop)
qed

theorem notify_dispatches_polled_tasks_witness:
  "slots_inv \<lparr>m_active_workers = 0, m_max_workers = 2,
       m_running_threads = [None :: nat WorkerThread option, None],
       m_available_thread_ids = [0, 1]\<rparr>
   \<and> polled_tasks 2 FifoWorkQueue_get_next_task [Some (5::nat)] = ([5], [])
   \<and> notify FifoWorkQueue_get_next_task
       (\<lparr>m_active_workers = 0, m_max_workers = 2,
         m_running_threads = [None :: nat WorkerThread option, None],
         m_available_thread_ids = [0, 1]\<rparr>, [Some 5])
     = (\<lparr>m_active_workers = 1, m_max_workers = 2,
         m_running_threads = [Some \<lparr>m_task = Some 5, m_thread_id = 0\<rparr>, None],
         m_available_thread_ids = [1]\<rparr>, [])"
proof -
  let ?a = "\<lparr>m_active_workers = 0, m_max_workers = 2,
       m_running_threads = [None :: nat WorkerThread option, None],
       m_available_thread_ids = [0, 1]\<rparr>"
  have occ: "occupied_slots ?a = {}"
    by (auto simp: occupied_slots_def less_Suc_eq nth_Cons')
  have inv: "slots_inv ?a"
    by (auto simp: slots_inv_def occ less_Suc_eq nth_Cons')
  have pt: "polled_tasks 2 FifoWorkQueue_get_next_task [Some (5::nat)] = ([5], [])"
    by (simp add: numeral_2_eq_2 FifoWorkQueue_get_next_task_simps)
  show ?thesis
    using inv pt notify_dispatches_polled_tasks [OF inv, of FifoWorkQueue_get_next_task "[Some 5]"]
    by (simp add: FifoWorkQueue_get_next_task_simps notify_def notify_loop_unfold
        notify_body_def start_worker_def vector_assign_def)
qed

text \<open>
  C3. In every state that a queue constructed with \<open>num_threads \<ge> 0\<close> reaches through
  \<open>notify\<close> and \<open>worker_thread_complete\<close>, \<open>0 \<le> m_active_workers \<le> m_max_workers\<close> and
  the free slots and the active workers add up to \<open>m_max_workers\<close>, which stays
  \<open>num_threads\<close>. (\<open>num_threads < 2 ^ size_bits\<close>: the conversion to \<open>size_type\<close> in
  \<open>resize\<close> keeps the value, as it does wherever \<open>size_type\<close> is as wide as \<open>int\<close>.)
\<close>

theorem WorkQueue_invariant:
  assumes "0 \<le> num_threads" and "num_threads < 2 ^ size_bits"
    and "WorkQueue_reachable size_bits max_size num_threads get_next_task w"
  shows "0 \<le> m_active_workers w \<and> m_active_workers w \<le> m_max_workers w \<and>
    int (length (m_available_thread_ids w)) + m_active_workers w = m_max_workers w \<and>
    m_max_workers w = num_threads"
  using reachable_slots_inv [OF assms] slots_inv_bounds by blast

theorem WorkQueue_invariant_witness:
  "(0::int) \<le> 1 \<and> (1::int) < 2 ^ 64 \<and>
   WorkQueue_reachable 64 1000 1 FifoWorkQueue_get_next_task
     \<lparr>m_active_workers = 1, m_max_workers = 1,
      m_running_threads = [Some \<lparr>m_task = Some (5::nat), m_thread_id = 0\<rparr>],
      m_available_thread_ids = []\<rparr> \<and>
   0 \<le> m_active_workers
     \<lparr>m_active_workers = 1, m_max_workers = 1,
      m_running_threads = [Some \<lparr>m_task = Some (5::nat), m_thread_id = 0\<rparr>],
      m_available_thread_ids = []\<rparr>"
proof -
  let ?w0 = "\<lparr>m_active_workers = 0, m_max_workers = 1,
      m_running_threads = [None :: nat WorkerThread option], m_available_thread_ids = [0]\<rparr>"
  let ?w1 = "\<lparr>m_active_workers = 1, m_max_workers = 1,
      m_running_threads = [Some \<lparr>m_task = Some (5::nat), m_thread_id = 0\<rparr>],
      m_available_thread_ids = []\<rparr>"
  have ctor: "WorkQueue_ctor 64 1000 1 = Inr ?w0"
    by (simp add: WorkQueue_ctor_def vector_resize_def size_type_of_int_def
        WorkQueue_ctor_loop_upto upto_rec1)
  have r0: "WorkQueue_reachable 64 1000 1 FifoWorkQueue_get_next_task ?w0"
    by (rule WorkQueue_reachable.constructed [OF ctor])
  have n: "notify FifoWorkQueue_get_next_task (?w0, [Some 5]) = (?w1, [])"
    by (simp add: notify_def notify_loop_unfold notify_body_def start_worker_def
        vector_assign_def FifoWorkQueue_get_next_task_simps)
  have r1: "WorkQueue_reachable 64 1000 1 FifoWorkQueue_get_next_task ?w1"
    by (rule WorkQueue_reachable.notified [OF r0 n])
  have le: "(0::int) \<le> 1" and lt: "(1::int) < 2 ^ 64" by simp_all
  show ?thesis
    using r1 WorkQueue_invariant [OF le lt r1] by simp
qed

text \<open>
  C7. Constructing a queue with a negative \<open>num_threads\<close> raises an error: converted
  to \<open>size_type\<close> the argument of \<open>resize\<close> is at least \<open>2 ^ (size_bits - 1)\<close>, above
  \<open>max_size()\<close> of any vector, and \<open>std::length_error\<close> leaves the constructor of
  \<open>WorkQueue\<close> and with it those of \<open>FifoWorkQueue\<close> and \<open>OrderedWorkQueue\<close>. No queue
  object comes to exist. (\<open>num_threads\<close> is a 32-bit \<open>int\<close>, \<open>size_type\<close> has at least
  32 bits, and \<open>max_size()\<close> is below \<open>2 ^ (size_bits - 1)\<close>.)
\<close>

theorem WorkQueue_ctor_negative:
  assumes "- (2 ^ 31) \<le> num_threads" and "num_threads < 0"
    and "32 \<le> size_bits" and "max_size < 2 ^ (size_bits - 1)"
  shows "WorkQueue_ctor size_bits max_size num_threads = Inl LengthError \<and>
    FifoWorkQueue_ctor size_bits max_size num_threads = Inl LengthError \<and>
    OrderedWorkQueue_ctor size_bits max_size num_threads = Inl LengthError"
proof -
  have p31: "(2::int) ^ 31 \<le> 2 ^ (size_bits - 1)"
    using assms(3) by (intro power_increasing) auto
  have dbl: "(2::int) ^ size_bits = 2 * 2 ^ (size_bits - 1)"
    using assms(3) by (cases size_bits) auto
  have "num_threads mod 2 ^ size_bits = num_threads + 2 ^ size_bits"
    using assms(1,2) p31 dbl
    by (intro mod_pos_pos_trivial [THEN trans [OF mod_add_self2 [symmetric]]]) auto
  then have "int (size_type_of_int size_bits num_threads) \<ge> 2 ^ (size_bits - 1)"
    using assms(1) p31 dbl by (simp add: size_type_of_int_def)
  moreover have "int max_size < 2 ^ (size_bits - 1)"
    using assms(4) by (metis of_nat_less_iff of_nat_numeral of_nat_power)
  ultimately have "max_size < size_type_of_int size_bits num_threads"
    by linarith
  then show ?thesis
    by (simp add: FifoWorkQueue_ctor_def OrderedWorkQueue_ctor_def
        WorkQueue_ctor_length_error)
qed

theorem WorkQueue_ctor_negative_witness:
  "- (2 ^ 31) \<le> (- 1 :: int) \<and> (- 1 :: int) < 0 \<and> (32::nat) \<le> 64 \<and>
   (2 ^ 59 :: nat) < 2 ^ (64 - 1) \<and>
   (WorkQueue_ctor 64 (2 ^ 59) (- 1) :: error + nat WorkQueue) = Inl LengthError"
proof -
  have a: "- (2 ^ 31) \<le> (- 1 :: int)" and b: "(- 1 :: int) < 0"
    and c: "(32::nat) \<le> 64" and d: "(2 ^ 59 :: nat) < 2 ^ (64 - 1)"
    by simp_all
  have "(WorkQueue_ctor 64 (2 ^ 59) (- 1) :: error + nat WorkQueue) = Inl LengthError"
    by (rule WorkQueue_ctor_negative [OF a b c d, THEN conjunct1])
  then show ?thesis
    using a b c d by simp
qed

subsection \<open>Release order of the FIFO queue, and queues without slots\<close>

lemma tasks_of_append: "tasks_of (ps @ qs) = tasks_of ps @ tasks_of qs"
  by (induction ps rule: tasks_of.induct) simp_all

lemma fifo_polls_order:
  "tasks_of (fst (fifo_polls q es)) @ tasks_of (snd (fifo_polls q es))
     = tasks_of (q @ fifo_pushed es)"
proof (induction q es rule: fifo_polls.induct)
  case (1 q)
  show ?case by simp
next
  case (2 q task es)
  then show ?case by simp
next
  case (3 q es)
  show ?case
  proof (cases q)
    case Nil
    with "3" show ?thesis
      by (auto simp: FifoWorkQueue_get_next_task_simps split: prod.splits)
  next
    case (Cons p ps)
    with "3" show ?thesis
      by (cases p) (auto simp: FifoWorkQueue_get_next_task_simps split: prod.splits)
  qed
qed

text \<open>
  C4. \<open>FifoWorkQueue::get_next_task\<close> returns the empty pointer on an empty pending
  list and otherwise removes and returns its head. Whatever the interleaving of
  arrivals and polls, the tasks released so far followed by the tasks still pending
  are the tasks that were pending or arrived, in their order of arrival.
\<close>

theorem FifoWorkQueue_get_next_task_fifo:
  "FifoWorkQueue_get_next_task q = (case q of [] \<Rightarrow> (None, []) | task # rest \<Rightarrow> (task, rest))
   \<and> tasks_of (fst (fifo_polls q es)) @ tasks_of (snd (fifo_polls q es))
       = tasks_of (q @ fifo_pushed es)"
  by (simp add: fifo_polls_order FifoWorkQueue_get_next_task_simps split: list.splits)

lemma notify_no_free_slot:
  assumes "m_available_thread_ids w = []"
  shows "notify gnt (w, q) = (w, q)"
  using assms by (simp add: notify_def notify_loop_unfold)

lemma WorkQueue_ctor_0:
  "WorkQueue_ctor size_bits max_size 0 =
     Inr \<lparr>m_active_workers = 0, m_max_workers = 0, m_running_threads = [],
          m_available_thread_ids = []\<rparr>"
  by (simp add: WorkQueue_ctor_def vector_resize_def size_type_of_int_def
      WorkQueue_ctor_loop_upto)

lemma FifoWorkQueue_step_no_free_slot:
  assumes "m_available_thread_ids (fst s) = []"
  shows "fst (foldl FifoWorkQueue_step s calls) = fst s"
  using assms
proof (induction calls arbitrary: s)
  case Nil
  show ?case by simp
next
  case (Cons c calls)
  have "fst (FifoWorkQueue_step s c) = fst s"
    using Cons.prems by (cases c) (simp_all add: FifoWorkQueue_add_task_def notify_no_free_slot)
  with Cons show ?case by simp
qed

lemma OrderedWorkQueue_step_no_free_slot:
  assumes "m_available_thread_ids (fst s) = []"
  shows "fst (foldl OrderedWorkQueue_step s calls) = fst s"
  using assms
proof (induction calls arbitrary: s)
  case Nil
  show ?case by simp
next
  case (Cons c calls)
  have "fst (OrderedWorkQueue_step s c) = fst s"
    using Cons.prems by (cases c) (simp_all add: OrderedWorkQueue_add_task_def notify_no_free_slot)
  with Cons show ?case by simp
qed

text \<open>
  C9. A \<open>FifoWorkQueue\<close> or \<open>OrderedWorkQueue\<close> constructed with \<open>num_threads = 0\<close> has no
  slot, and after any sequence of \<open>add_task\<close> calls and polls of \<open>get_next_task\<close> its
  \<open>WorkQueue\<close> part is as constructed: \<open>active_threads()\<close> is 0 and no slot holds a
  worker, so the body of the loop of \<open>notify\<close>, the one place that creates a
  \<open>WorkerThread\<close>, never ran.
\<close>

theorem capacity_0_never_dispatches:
  "FifoWorkQueue_ctor size_bits max_size 0 =
     Inr (\<lparr>m_active_workers = 0, m_max_workers = 0, m_running_threads = [],
           m_available_thread_ids = []\<rparr>, [])
   \<and> fst (foldl FifoWorkQueue_step
        (\<lparr>m_active_workers = 0, m_max_workers = 0, m_running_threads = [],
          m_available_thread_ids = []\<rparr>, []) fifo_calls)
      = \<lparr>m_active_workers = 0, m_max_workers = 0, m_running_threads = [],
          m_available_thread_ids = []\<rparr>
   \<and> active_threads (fst (foldl FifoWorkQueue_step
        (\<lparr>m_active_workers = 0, m_max_workers = 0, m_running_threads = [],
          m_available_thread_ids = []\<rparr>, []) fifo_calls)) = 0
   \<and> OrderedWorkQueue_ctor size_bits max_size 0 =
     Inr (\<lparr>m_active_workers = 0, m_max_workers = 0, m_running_threads = [],
           m_available_thread_ids = []\<rparr>, \<lparr>m_queued_tasks = [], m_next_index = 0\<rparr>)
   \<and> fst (foldl OrderedWorkQueue_step
        (\<lparr>m_active_workers = 0, m_max_workers = 0, m_running_threads = [],
          m_available_thread_ids = []\<rparr>, \<lparr>m_queued_tasks = [], m_next_index = 0\<rparr>)
        ordered_calls)
      = \<lparr>m_active_workers = 0, m_max_workers = 0, m_running_threads = [],
          m_available_thread_ids = []\<rparr>
   \<and> active_threads (fst (foldl OrderedWorkQueue_step
        (\<lparr>m_active_workers = 0, m_max_workers = 0, m_running_threads = [],
          m_available_thread_ids = []\<rparr>, \<lparr>m_queued_tasks = [], m_next_index = 0\<rparr>)
        ordered_calls)) = 0"
  by (simp add: FifoWorkQueue_ctor_def OrderedWorkQueue_ctor_def WorkQueue_ctor_0
      FifoWorkQueue_step_no_free_slot OrderedWorkQueue_step_no_free_slot active_threads_def)

subsection \<open>The assertion of worker_thread_complete\<close>





subsection \<open>The ordered queue\<close>



lemma set_map_assign: "set (map_assign k v m) \<subseteq> insert (k, v) (set m)"
  by (induction m) auto

lemma map_wf_map_assign:
  assumes "map_wf m"
  shows "map_wf (map_assign k v m)"
  using assms
proof (induction m)
  case Nil
  show ?case by (simp add: map_wf_def)
next
  case (Cons e m)
  have sub: "set (map_assign k v m) \<subseteq> insert (k, v) (set m)"
    by (rule set_map_assign)
  show ?case
  proof (cases "k = fst e \<or> k < fst e")
    case True
    then show ?thesis
      using Cons.prems by (auto simp: map_wf_Cons)
  next
    case False
    have "\<forall>x \<in> set (map_assign k v m). fst e < fst x"
      using sub False Cons.prems by (auto simp: map_wf_Cons)
    moreover have "map_wf (map_assign k v m)"
      using Cons by (simp add: map_wf_Cons)
    ultimately show ?thesis
      using False by (simp add: map_wf_Cons)
  qed
qed


lemma OrderedWorkQueue_get_next_task_cases:
  assumes "map_wf (m_queued_tasks q)"
  shows "case OrderedWorkQueue_get_next_task q of
     (r, q') \<Rightarrow>
       (r = None \<and> q' = q) \<or>
       (m_next_index q' = int_wrap (m_next_index q + 1) \<and>
        map_of (m_queued_tasks q) (m_next_index q) = Some r \<and>
        map_of (m_queued_tasks q') = (map_of (m_queued_tasks q))(m_next_index q := None) \<and>
        Suc (length (m_queued_tasks q')) = length (m_queued_tasks q) \<and>
        map_wf (m_queued_tasks q'))"
proof (cases "m_queued_tasks q")
  case Nil
  then show ?thesis by (simp add: OrderedWorkQueue_get_next_task_def)
next
  case (Cons e rest)
  have fresh: "map_of rest (fst e) = None"
    using assms by (force simp: Cons map_wf_Cons map_of_eq_None_iff)
  have "map_of rest = (map_of (e # rest))(fst e := None)"
    using fresh by (cases e) (auto simp: fun_eq_iff)
  moreover have "map_of (e # rest) (fst e) = Some (snd e)"
    by (cases e) simp
  moreover have "map_wf rest"
    using assms by (simp add: Cons map_wf_Cons)
  ultimately show ?thesis
    by (auto simp: OrderedWorkQueue_get_next_task_def Cons Let_def)
qed


lemma notify_storage:
  "snd (notify gnt (w, q)) = snd (polled_tasks (length (m_available_thread_ids w)) gnt q)"
  by (simp add: notify_def notify_loop_closed split: prod.splits)

lemma polled_tasks_preserves:
  assumes "\<And>q. R q (snd (gnt q))" and "\<And>q. R q q" and "\<And>a b c. R a b \<Longrightarrow> R b c \<Longrightarrow> R a c"
  shows "R q (snd (polled_tasks n gnt q))"
proof (induction n arbitrary: q)
  case 0
  show ?case using assms(2) by simp
next
  case (Suc n)
  obtain r q' where g: "gnt q = (r, q')"
    by (cases "gnt q")
  have step: "R q q'"
    using assms(1) [of q] by (simp add: g)
  show ?case
  proof (cases r)
    case None
    then show ?thesis using step by (simp add: g)
  next
    case (Some t)
    have "R q (snd (polled_tasks n gnt q'))"
      using step Suc [of q'] by (rule assms(3))
    then show ?thesis
      by (auto simp: g Some split: prod.splits)
  qed
qed


lemma OrderedWorkQueue_get_next_task_map_wf:
  assumes "map_wf (m_queued_tasks q)"
  shows "map_wf (m_queued_tasks (snd (OrderedWorkQueue_get_next_task q)))"
  using assms OrderedWorkQueue_get_next_task_cases [OF assms]
  by (auto split: prod.splits)

lemma OrderedWorkQueue_step_map_wf:
  assumes "map_wf (m_queued_tasks (snd s))"
  shows "map_wf (m_queued_tasks (snd (OrderedWorkQueue_step s c)))"
proof (cases c)
  case (Ordered_add_task task index)
  let ?q = "(snd s)\<lparr>m_queued_tasks := map_assign index task (m_queued_tasks (snd s))\<rparr>"
  have "map_wf (m_queued_tasks ?q) \<longrightarrow>
      map_wf (m_queued_tasks
        (snd (polled_tasks (length (m_available_thread_ids (fst s)))
           OrderedWorkQueue_get_next_task ?q)))"
    by (rule polled_tasks_preserves
        [where R = "\<lambda>a b. map_wf (m_queued_tasks a) \<longrightarrow> map_wf (m_queued_tasks b)"])
      (auto simp: OrderedWorkQueue_get_next_task_map_wf)
  then show ?thesis
    using assms
    by (simp add: Ordered_add_task OrderedWorkQueue_add_task_def notify_storage
        map_wf_map_assign)
next
  case Ordered_get_next_task
  then show ?thesis
    using assms by (simp add: OrderedWorkQueue_get_next_task_map_wf)
qed

lemma OrderedWorkQueue_steps_map_wf:
  assumes "map_wf (m_queued_tasks (snd s))"
  shows "map_wf (m_queued_tasks (snd (foldl OrderedWorkQueue_step s calls)))"
  using assms
  by (induction calls arbitrary: s) (simp_all add: OrderedWorkQueue_step_map_wf)

lemma OrderedWorkQueue_ctor_map_wf:
  assumes "OrderedWorkQueue_ctor size_bits max_size num_threads = Inr s"
  shows "map_wf (m_queued_tasks (snd s))"
  using assms
  by (auto simp: OrderedWorkQueue_ctor_def map_wf_def split: sum.splits)

lemma OrderedWorkQueue_counts_up:
  assumes "m_available_thread_ids w = []" and "int n \<le> INT_MAX"
  shows "foldl OrderedWorkQueue_step (w, \<lparr>m_queued_tasks = [], m_next_index = 0\<rparr>)
           (concat (map (\<lambda>k. [Ordered_add_task task (int k), Ordered_get_next_task]) [0..<n]))
         = (w, \<lparr>m_queued_tasks = [], m_next_index = int n\<rparr>)"
  using assms(2)
proof (induction n)
  case 0
  show ?case by simp
next
  case (Suc n)
  have n: "int n < INT_MAX" "INT_MIN \<le> int n"
    using Suc.prems by (simp_all add: INT_MIN_def)
  have add: "OrderedWorkQueue_add_task task (int n)
               (w, \<lparr>m_queued_tasks = [], m_next_index = int n\<rparr>)
             = (w, \<lparr>m_queued_tasks = [(int n, task)], m_next_index = int n\<rparr>)"
    by (simp add: OrderedWorkQueue_add_task_def notify_no_free_slot assms(1))
  have poll: "snd (OrderedWorkQueue_get_next_task
                \<lparr>m_queued_tasks = [(int n, task)], m_next_index = int n\<rparr>)
             = \<lparr>m_queued_tasks = [], m_next_index = int n + 1\<rparr>"
    using int_wrap_increment [OF n(2,1)]
    by (simp add: OrderedWorkQueue_get_next_task_def)
  show ?case
    using Suc.IH n(1) by (simp add: add poll)
qed

lemma OrderedWorkQueue_reaches_INT_MAX:
  assumes "m_available_thread_ids w = []" and "int n = INT_MAX"
  shows "foldl OrderedWorkQueue_step (w, \<lparr>m_queued_tasks = [], m_next_index = 0\<rparr>)
           (concat (map (\<lambda>k. [Ordered_add_task task (int k), Ordered_get_next_task]) [0..<n])
              @ [Ordered_add_task task INT_MAX])
         = (w, \<lparr>m_queued_tasks = [(INT_MAX, task)], m_next_index = INT_MAX\<rparr>)"
proof -
  have "int n \<le> INT_MAX"
    using assms(2) by simp
  note up = OrderedWorkQueue_counts_up [OF assms(1) this, of task]
  show ?thesis
    unfolding foldl_append up
    by (simp add: OrderedWorkQueue_add_task_def notify_no_free_slot assms)
qed

lemma length_map_assign_le: "length (map_assign k v m) \<le> Suc (length m)"
  by (induction m) auto

lemma OrderedWorkQueue_get_next_task_potential:
  assumes "INT_MIN \<le> m_next_index q"
    and "m_next_index q + int (length (m_queued_tasks q)) \<le> INT_MAX"
  shows "m_next_index q \<le> m_next_index (snd (OrderedWorkQueue_get_next_task q)) \<and>
    m_next_index (snd (OrderedWorkQueue_get_next_task q))
      + int (length (m_queued_tasks (snd (OrderedWorkQueue_get_next_task q))))
    = m_next_index q + int (length (m_queued_tasks q))"
proof (cases "m_queued_tasks q")
  case Nil
  then show ?thesis by (simp add: OrderedWorkQueue_get_next_task_def)
next
  case (Cons e rest)
  have "m_next_index q < INT_MAX"
    using assms(2) by (simp add: Cons)
  then have "int_wrap (m_next_index q + 1) = m_next_index q + 1"
    using assms(1) by (simp add: int_wrap_increment)
  then show ?thesis
    by (simp add: OrderedWorkQueue_get_next_task_def Cons Let_def)
qed

lemma OrderedWorkQueue_notify_potential:
  assumes "INT_MIN \<le> m_next_index q"
    and "m_next_index q + int (length (m_queued_tasks q)) \<le> INT_MAX"
  shows "m_next_index q \<le> m_next_index (snd (notify OrderedWorkQueue_get_next_task (w, q))) \<and>
    m_next_index (snd (notify OrderedWorkQueue_get_next_task (w, q)))
      + int (length (m_queued_tasks (snd (notify OrderedWorkQueue_get_next_task (w, q)))))
    = m_next_index q + int (length (m_queued_tasks q))"
proof -
  let ?R = "\<lambda>a b :: 'a OrderedWorkQueue.
     INT_MIN \<le> m_next_index a \<and>
     m_next_index a + int (length (m_queued_tasks a)) \<le> INT_MAX \<longrightarrow>
     m_next_index a \<le> m_next_index b \<and>
     m_next_index b + int (length (m_queued_tasks b))
       = m_next_index a + int (length (m_queued_tasks a))"
  have "?R q (snd (polled_tasks (length (m_available_thread_ids w))
                OrderedWorkQueue_get_next_task q))"
  proof (rule polled_tasks_preserves [where R = ?R])
    show "?R q (snd (OrderedWorkQueue_get_next_task q))" for q :: "'a OrderedWorkQueue"
      using OrderedWorkQueue_get_next_task_potential [of q] by simp
    show "?R q q" for q :: "'a OrderedWorkQueue"
      by simp
    show "?R a c" if "?R a b" "?R b c" for a b c :: "'a OrderedWorkQueue"
      using that by fastforce
  qed
  then show ?thesis
    using assms by (simp add: notify_storage)
qed

lemma OrderedWorkQueue_step_potential:
  assumes "INT_MIN \<le> m_next_index (snd s)"
    and "m_next_index (snd s) + int (length (m_queued_tasks (snd s))) + 1 \<le> INT_MAX"
  shows "m_next_index (snd s) \<le> m_next_index (snd (OrderedWorkQueue_step s c)) \<and>
    m_next_index (snd (OrderedWorkQueue_step s c))
      + int (length (m_queued_tasks (snd (OrderedWorkQueue_step s c))))
    \<le> m_next_index (snd s) + int (length (m_queued_tasks (snd s))) + 1"
proof (cases c)
  case (Ordered_add_task task index)
  let ?q = "(snd s)\<lparr>m_queued_tasks := map_assign index task (m_queued_tasks (snd s))\<rparr>"
  have len: "int (length (m_queued_tasks ?q)) \<le> int (length (m_queued_tasks (snd s))) + 1"
    using length_map_assign_le [of index task "m_queued_tasks (snd s)"] by simp
  have "INT_MIN \<le> m_next_index ?q"
    and "m_next_index ?q + int (length (m_queued_tasks ?q)) \<le> INT_MAX"
    using assms len by simp_all
  from OrderedWorkQueue_notify_potential [OF this, of "fst s"] len
  show ?thesis
    by (simp add: Ordered_add_task OrderedWorkQueue_add_task_def)
next
  case Ordered_get_next_task
  have "m_next_index (snd s) + int (length (m_queued_tasks (snd s))) \<le> INT_MAX"
    using assms(2) by simp
  from OrderedWorkQueue_get_next_task_potential [OF assms(1) this]
  show ?thesis
    by (simp add: Ordered_get_next_task)
qed

lemma OrderedWorkQueue_steps_potential:
  assumes "INT_MIN \<le> m_next_index (snd s)"
    and "m_next_index (snd s) + int (length (m_queued_tasks (snd s))) + int (length calls)
           \<le> INT_MAX"
  shows "m_next_index (snd s) \<le> m_next_index (snd (foldl OrderedWorkQueue_step s calls)) \<and>
    m_next_index (snd (foldl OrderedWorkQueue_step s calls))
      + int (length (m_queued_tasks (snd (foldl OrderedWorkQueue_step s calls))))
    \<le> m_next_index (snd s) + int (length (m_queued_tasks (snd s))) + int (length calls)"
  using assms
proof (induction calls arbitrary: s)
  case Nil
  show ?case by simp
next
  case (Cons c calls)
  let ?s = "OrderedWorkQueue_step s c"
  have one: "m_next_index (snd s) + int (length (m_queued_tasks (snd s))) + 1 \<le> INT_MAX"
    using Cons.prems(2) by simp
  note step = OrderedWorkQueue_step_potential [OF Cons.prems(1) one, of c]
  have "INT_MIN \<le> m_next_index (snd ?s)"
    using step Cons.prems(1) by simp
  moreover have "m_next_index (snd ?s) + int (length (m_queued_tasks (snd ?s)))
      + int (length calls) \<le> INT_MAX"
    using step Cons.prems(2) by simp
  ultimately have "m_next_index (snd ?s) \<le> m_next_index (snd (foldl OrderedWorkQueue_step ?s calls)) \<and>
    m_next_index (snd (foldl OrderedWorkQueue_step ?s calls))
      + int (length (m_queued_tasks (snd (foldl OrderedWorkQueue_step ?s calls))))
    \<le> m_next_index (snd ?s) + int (length (m_queued_tasks (snd ?s))) + int (length calls)"
    by (rule Cons.IH)
  then show ?case
    using step by simp
qed

text \<open>
  C5, as the code has it. \<open>m_next_index\<close> is 0 in a constructed \<open>OrderedWorkQueue\<close>, whose
  map is empty. Each poll of \<open>get_next_task\<close> either returns the empty pointer and
  changes nothing, or is a release: the pointer returned is the one stored under the
  old \<open>m_next_index\<close>, that entry, and only it, leaves the map, and \<open>m_next_index\<close> is
  incremented as a 32-bit \<open>int\<close>, by exactly 1 below \<open>INT_MAX\<close> and from \<open>INT_MAX\<close> to
  \<open>INT_MIN\<close>. So a task is handed out only when its index is the current
  \<open>m_next_index\<close>. Over a sequence of \<open>add_task\<close> calls and polls, \<open>m_next_index\<close> does not
  decrease as long as \<open>m_next_index\<close> plus the number of pending tasks plus the number
  of calls is at most \<open>INT_MAX\<close>: the increment cannot reach \<open>INT_MAX\<close> then.
\<close>

theorem OrderedWorkQueue_next_index_discipline:
  assumes "map_wf (m_queued_tasks q)"
  shows "(case OrderedWorkQueue_ctor size_bits max_size num_threads of
            Inl e \<Rightarrow> True
          | Inr s0 \<Rightarrow> m_next_index (snd s0) = 0 \<and> m_queued_tasks (snd s0) = [])
    \<and> (case OrderedWorkQueue_get_next_task q of
         (r, q') \<Rightarrow>
           (r = None \<and> q' = q) \<or>
           (m_next_index q' = int_wrap (m_next_index q + 1) \<and>
            map_of (m_queued_tasks q) (m_next_index q) = Some r \<and>
            map_of (m_queued_tasks q') = (map_of (m_queued_tasks q))(m_next_index q := None) \<and>
            Suc (length (m_queued_tasks q')) = length (m_queued_tasks q) \<and>
            map_wf (m_queued_tasks q')))
    \<and> (INT_MIN \<le> m_next_index q \<and> m_next_index q < INT_MAX \<longrightarrow>
         int_wrap (m_next_index q + 1) = m_next_index q + 1)
    \<and> (m_next_index q = INT_MAX \<longrightarrow> int_wrap (m_next_index q + 1) = INT_MIN)
    \<and> (INT_MIN \<le> m_next_index (snd s) \<and>
        m_next_index (snd s) + int (length (m_queued_tasks (snd s))) + int (length calls)
          \<le> INT_MAX \<longrightarrow>
        m_next_index (snd s) \<le> m_next_index (snd (foldl OrderedWorkQueue_step s calls)))"
proof (intro conjI)
  show "case OrderedWorkQueue_ctor size_bits max_size num_threads of
            Inl e \<Rightarrow> True
          | Inr s0 \<Rightarrow> m_next_index (snd s0) = 0 \<and> m_queued_tasks (snd s0) = []"
    by (simp add: OrderedWorkQueue_ctor_def split: sum.splits)
  show "case OrderedWorkQueue_get_next_task q of
         (r, q') \<Rightarrow>
           (r = None \<and> q' = q) \<or>
           (m_next_index q' = int_wrap (m_next_index q + 1) \<and>
            map_of (m_queued_tasks q) (m_next_index q) = Some r \<and>
            map_of (m_queued_tasks q') = (map_of (m_queued_tasks q))(m_next_index q := None) \<and>
            Suc (length (m_queued_tasks q')) = length (m_queued_tasks q) \<and>
            map_wf (m_queued_tasks q'))"
    by (rule OrderedWorkQueue_get_next_task_cases [OF assms])
  show "INT_MIN \<le> m_next_index q \<and> m_next_index q < INT_MAX \<longrightarrow>
         int_wrap (m_next_index q + 1) = m_next_index q + 1"
    by (simp add: int_wrap_increment)
  show "m_next_index q = INT_MAX \<longrightarrow> int_wrap (m_next_index q + 1) = INT_MIN"
    by (simp add: int_wrap_overflow)
  show "INT_MIN \<le> m_next_index (snd s) \<and>
        m_next_index (snd s) + int (length (m_queued_tasks (snd s))) + int (length calls)
          \<le> INT_MAX \<longrightarrow>
        m_next_index (snd s) \<le> m_next_index (snd (foldl OrderedWorkQueue_step s calls))"
    using OrderedWorkQueue_steps_potential [of s calls] by blast
qed

theorem OrderedWorkQueue_next_index_discipline_witness:
  "map_wf (m_queued_tasks \<lparr>m_queued_tasks = [(0, Some (7::nat)), (2, Some 9)], m_next_index = 0\<rparr>)
   \<and> OrderedWorkQueue_ctor 64 1000 1 =
       Inr (\<lparr>m_active_workers = 0, m_max_workers = 1,
             m_running_threads = [None :: nat WorkerThread option],
             m_available_thread_ids = [0]\<rparr>,
            \<lparr>m_queued_tasks = [], m_next_index = 0\<rparr>)
   \<and> snd (foldl OrderedWorkQueue_step
        (\<lparr>m_active_workers = 0, m_max_workers = 1,
          m_running_threads = [None :: nat WorkerThread option],
          m_available_thread_ids = [0]\<rparr>,
         \<lparr>m_queued_tasks = [], m_next_index = 0\<rparr>)
        [Ordered_add_task (Some 9) 1, Ordered_add_task (Some 7) 0])
       = \<lparr>m_queued_tasks = [(1, Some 9)], m_next_index = 1\<rparr>
   \<and> OrderedWorkQueue_get_next_task
        \<lparr>m_queued_tasks = [(0, Some (7::nat)), (2, Some 9)], m_next_index = 0\<rparr>
       = (Some 7, \<lparr>m_queued_tasks = [(2, Some 9)], m_next_index = 1\<rparr>)
   \<and> INT_MIN \<le> 0 \<and> (0::int) + int (length ([] :: (int \<times> nat task_ptr) list)) + 2 \<le> INT_MAX"
proof -
  let ?q = "\<lparr>m_queued_tasks = [(0, Some (7::nat)), (2, Some 9)], m_next_index = 0\<rparr>"
  let ?s = "(\<lparr>m_active_workers = 0, m_max_workers = 1,
          m_running_threads = [None :: nat WorkerThread option],
          m_available_thread_ids = [0]\<rparr>,
         \<lparr>m_queued_tasks = [] :: nat task_ptr std_map, m_next_index = 0\<rparr>)"
  have wf: "map_wf (m_queued_tasks ?q)"
    by (simp add: map_wf_def)
  have ctor: "OrderedWorkQueue_ctor 64 1000 1 = Inr ?s"
    by (simp add: OrderedWorkQueue_ctor_def WorkQueue_ctor_def vector_resize_def
        size_type_of_int_def WorkQueue_ctor_loop_upto upto_rec1)
  have run: "snd (foldl OrderedWorkQueue_step ?s
        [Ordered_add_task (Some 9) 1, Ordered_add_task (Some 7) 0])
       = \<lparr>m_queued_tasks = [(1, Some 9)], m_next_index = 1\<rparr>"
    by (simp add: OrderedWorkQueue_add_task_def notify_def notify_loop_unfold
        notify_body_def start_worker_def vector_assign_def
        OrderedWorkQueue_get_next_task_def int_wrap_def)
  show ?thesis
    using wf ctor run
      OrderedWorkQueue_next_index_discipline [OF wf, of 64 1000 1 ?s
        "[Ordered_add_task (Some 9) 1, Ordered_add_task (Some 7) 0]"]
    by (simp add: OrderedWorkQueue_get_next_task_def int_wrap_def INT_MIN_def INT_MAX_def)
qed

text \<open>
  C5 fails as stated at \<open>INT_MAX\<close>: with index 2147483647 pending and next, a poll of
  \<open>get_next_task\<close> releases the task and \<open>m_next_index\<close> goes down to -2147483648. The
  state is reached through \<open>add_task\<close> and \<open>get_next_task\<close> alone
  (\<open>OrderedWorkQueue_reaches_INT_MAX\<close>).
\<close>

theorem OrderedWorkQueue_next_index_wraps_counterexample:
  "snd (foldl OrderedWorkQueue_step
     (\<lparr>m_active_workers = 0, m_max_workers = 0, m_running_threads = [],
       m_available_thread_ids = []\<rparr>,
      \<lparr>m_queued_tasks = [(2147483647, Some (9::nat))], m_next_index = 2147483647\<rparr>)
     [Ordered_get_next_task])
   = \<lparr>m_queued_tasks = [], m_next_index = - 2147483648\<rparr>
   \<and> (- 2147483648 :: int) < 2147483647"
  by (simp add: OrderedWorkQueue_get_next_task_def int_wrap_def)

subsection \<open>Adding a task under a pending index\<close>





subsection \<open>The order of the two locks\<close>


lemma nested_acquires_storage_blocks:
  "nested_acquires [m_queue_mutex]
       (concat (replicate k [Acquire m_mutex, Release m_mutex]) @ es)
     = replicate k (m_queue_mutex, m_mutex) @ nested_acquires [m_queue_mutex] es"
  by (induction k) simp_all

lemma held_after_storage_blocks:
  "held_after [m_queue_mutex]
       (concat (replicate k [Acquire m_mutex, Release m_mutex]) @ es)
     = held_after [m_queue_mutex] es"
  by (induction k) simp_all

lemma notify_loop_locks_unfold:
  "notify_loop_locks gnt gl (w, q) =
     (if m_available_thread_ids w = [] then []
      else gl q @
        (case gnt q of
           (None, q') \<Rightarrow> []
         | (Some t, q') \<Rightarrow> notify_loop_locks gnt gl (notify_body w t, q')))"
  by (subst notify_loop_locks.simps) simp

lemma notify_loop_locks_blocks:
  assumes "\<And>q. gl q = [] \<or> gl q = [Acquire m_mutex, Release m_mutex]"
  shows "\<exists>k. notify_loop_locks gnt gl (w, q)
           = concat (replicate k [Acquire m_mutex, Release m_mutex])"
proof (induction "length (m_available_thread_ids w)" arbitrary: w q)
  case 0
  then have "notify_loop_locks gnt gl (w, q) = concat (replicate 0 [Acquire m_mutex, Release m_mutex])"
    by (simp add: notify_loop_locks_unfold)
  then show ?case by blast
next
  case (Suc n)
  then have ne: "m_available_thread_ids w \<noteq> []" by auto
  obtain r q' where g: "gnt q = (r, q')"
    by (cases "gnt q")
  obtain j where j: "gl q = concat (replicate j [Acquire m_mutex, Release m_mutex])"
  proof (cases "gl q = []")
    case True
    then have "gl q = concat (replicate 0 [Acquire m_mutex, Release m_mutex])" by simp
    then show ?thesis by (rule that)
  next
    case False
    then have "gl q = concat (replicate 1 [Acquire m_mutex, Release m_mutex])"
      using assms [of q] by simp
    then show ?thesis by (rule that)
  qed
  show ?case
  proof (cases r)
    case None
    then have "notify_loop_locks gnt gl (w, q) = concat (replicate j [Acquire m_mutex, Release m_mutex])"
      using ne g j by (simp add: notify_loop_locks_unfold)
    then show ?thesis by blast
  next
    case (Some t)
    have "n = length (m_available_thread_ids (notify_body w t))"
      using Suc.hyps(2) by (simp add: notify_body_def)
    then obtain k where k: "notify_loop_locks gnt gl (notify_body w t, q')
        = concat (replicate k [Acquire m_mutex, Release m_mutex])"
      using Suc.hyps(1) by blast
    have "notify_loop_locks gnt gl (w, q)
        = concat (replicate (j + k) [Acquire m_mutex, Release m_mutex])"
      using ne g Some j k by (simp add: notify_loop_locks_unfold replicate_add)
    then show ?thesis by blast
  qed
qed

lemma notify_locks_order:
  assumes "\<And>q. gl q = [] \<or> gl q = [Acquire m_mutex, Release m_mutex]"
  shows "set (nested_acquires [] (notify_locks gnt gl s)) \<subseteq> {(m_queue_mutex, m_mutex)}
    \<and> held_after [] (notify_locks gnt gl s) = []"
proof -
  obtain w q where s: "s = (w, q)" by (cases s)
  obtain k where k: "notify_loop_locks gnt gl (w, q)
        = concat (replicate k [Acquire m_mutex, Release m_mutex])"
    using notify_loop_locks_blocks [where gl = gl, OF assms] by blast
  show ?thesis
    by (auto simp: notify_locks_def s k nested_acquires_storage_blocks
        held_after_storage_blocks)
qed

lemma FifoWorkQueue_get_next_task_locks_block:
  "FifoWorkQueue_get_next_task_locks q = [] \<or>
   FifoWorkQueue_get_next_task_locks q = [Acquire m_mutex, Release m_mutex]"
  by (simp add: FifoWorkQueue_get_next_task_locks_def)

lemma OrderedWorkQueue_get_next_task_locks_block:
  "OrderedWorkQueue_get_next_task_locks q = [] \<or>
   OrderedWorkQueue_get_next_task_locks q = [Acquire m_mutex, Release m_mutex]"
  by (simp add: OrderedWorkQueue_get_next_task_locks_def)

lemma polls_locks_flat:
  assumes "\<And>q. gl q = [] \<or> gl q = [Acquire m_mutex, Release m_mutex]"
  shows "nested_acquires [] (concat (map gl polls) @ es) = nested_acquires [] es
    \<and> held_after [] (concat (map gl polls) @ es) = held_after [] es"
proof (induction polls)
  case Nil
  show ?case by simp
next
  case (Cons p polls)
  then show ?case using assms [of p] by auto
qed

lemma notify_locks_respected:
  assumes "\<And>q. gl q = [] \<or> gl q = [Acquire m_mutex, Release m_mutex]"
  shows "lock_order_respected (notify_locks gnt gl s)"
  unfolding lock_order_respected_def
  using assms by (rule notify_locks_order)

lemma after_storage_block_respected:
  assumes "lock_order_respected es"
  shows "lock_order_respected ([Acquire m_mutex, Release m_mutex] @ es)"
  using assms by (simp add: lock_order_respected_def)

lemma WorkerThread_run_locks_respected:
  assumes "\<And>q. gl q = [] \<or> gl q = [Acquire m_mutex, Release m_mutex]"
  shows "lock_order_respected (WorkerThread_run_locks gl polls w thread_id)"
  using polls_locks_flat [where gl = gl, OF assms, of polls]
  by (simp add: lock_order_respected_def WorkerThread_run_locks_def
      worker_thread_complete_locks_def)

lemma join_all_locks_respected: "lock_order_respected (join_all_locks waits)"
proof -
  have "nested_acquires []
          (concat (replicate k [Acquire m_queue_mutex, Release m_queue_mutex,
             Acquire m_queue_mutex, Release m_queue_mutex]) @ es) = nested_acquires [] es
      \<and> held_after []
          (concat (replicate k [Acquire m_queue_mutex, Release m_queue_mutex,
             Acquire m_queue_mutex, Release m_queue_mutex]) @ es) = held_after [] es"
    for k es
    by (induction k) simp_all
  then show ?thesis
    by (simp add: lock_order_respected_def join_all_locks_def)
qed

text \<open>
  C8, as the code has it. Every member function of \<open>WorkQueue\<close>, \<open>FifoWorkQueue\<close> and
  \<open>OrderedWorkQueue\<close>, and the run of a worker thread, starts and ends with no lock of
  the queue held, and the only acquisition it makes while holding a lock is that of
  the storage lock \<open>m_mutex\<close> under the slot lock \<open>m_queue_mutex\<close>. The slot lock is
  never acquired while the storage lock is held, so the two locks are always taken
  in one order and no lock-ordering cycle exists.
\<close>

theorem lock_order_slot_then_storage:
  "lock_order_respected (FifoWorkQueue_add_task_locks task fifo_state)
   \<and> lock_order_respected (OrderedWorkQueue_add_task_locks task index ordered_state)
   \<and> lock_order_respected
       (notify_locks FifoWorkQueue_get_next_task FifoWorkQueue_get_next_task_locks fifo_state)
   \<and> lock_order_respected
       (notify_locks OrderedWorkQueue_get_next_task OrderedWorkQueue_get_next_task_locks
          ordered_state)
   \<and> lock_order_respected (FifoWorkQueue_get_next_task_locks (snd fifo_state))
   \<and> lock_order_respected (OrderedWorkQueue_get_next_task_locks (snd ordered_state))
   \<and> lock_order_respected (FifoWorkQueue_size_locks (snd fifo_state))
   \<and> lock_order_respected (OrderedWorkQueue_size_locks (snd ordered_state))
   \<and> lock_order_respected (max_threads_locks (fst fifo_state))
   \<and> lock_order_respected (active_threads_locks (fst fifo_state))
   \<and> lock_order_respected (worker_thread_complete_locks (fst fifo_state) worker_id)
   \<and> lock_order_respected
       (WorkerThread_run_locks FifoWorkQueue_get_next_task_locks fifo_seen
          (fst fifo_state) worker_id)
   \<and> lock_order_respected
       (WorkerThread_run_locks OrderedWorkQueue_get_next_task_locks ordered_seen
          (fst ordered_state) worker_id)
   \<and> lock_order_respected (join_all_locks waits)"
proof -
  note fifo = FifoWorkQueue_get_next_task_locks_block
  note ordered = OrderedWorkQueue_get_next_task_locks_block
  have simple: "lock_order_respected [Acquire l, Release l]" for l
    by (simp add: lock_order_respected_def)
  have empty: "lock_order_respected []"
    by (simp add: lock_order_respected_def)
  show ?thesis
    unfolding FifoWorkQueue_add_task_locks_def OrderedWorkQueue_add_task_locks_def
    by (intro conjI after_storage_block_respected
        notify_locks_respected [where gl = FifoWorkQueue_get_next_task_locks, OF fifo]
        notify_locks_respected [where gl = OrderedWorkQueue_get_next_task_locks, OF ordered]
        WorkerThread_run_locks_respected
          [where gl = FifoWorkQueue_get_next_task_locks, OF fifo]
        WorkerThread_run_locks_respected
          [where gl = OrderedWorkQueue_get_next_task_locks, OF ordered]
        join_all_locks_respected)
      (simp_all add: simple empty FifoWorkQueue_get_next_task_locks_def
        OrderedWorkQueue_get_next_task_locks_def FifoWorkQueue_size_locks_def
        OrderedWorkQueue_size_locks_def max_threads_locks_def active_threads_locks_def
        worker_thread_complete_locks_def)
qed

text \<open>
  C8 fails as stated: \<open>notify\<close> on a \<open>FifoWorkQueue\<close> with a free slot acquires the
  storage lock, inside \<open>get_next_task\<close>, while it holds the slot lock.
\<close>

theorem notify_nests_locks_counterexample:
  "notify_locks FifoWorkQueue_get_next_task FifoWorkQueue_get_next_task_locks
     (\<lparr>m_active_workers = 0, m_max_workers = 1, m_running_threads = [None],
       m_available_thread_ids = [0]\<rparr>, [Some (5::nat)])
   = [Acquire m_queue_mutex, Acquire m_mutex, Release m_mutex, Release m_queue_mutex]
   \<and> nested_acquires []
       (notify_locks FifoWorkQueue_get_next_task FifoWorkQueue_get_next_task_locks
         (\<lparr>m_active_workers = 0, m_max_workers = 1, m_running_threads = [None],
           m_available_thread_ids = [0]\<rparr>, [Some (5::nat)]))
     = [(m_queue_mutex, m_mutex)]"
  by (simp add: notify_locks_def notify_loop_locks_unfold notify_body_def
      FifoWorkQueue_get_next_task_locks_def FifoWorkQueue_get_next_task_simps)

end
